theory Spec2Isabelle
  imports Main
begin

section \<open>Strings and the JavaScript string primitives used by the translator\<close>

text \<open>
  A JavaScript string is a finite sequence of code units. It is modelled as a
  \<open>string\<close> (a list of \<open>char\<close>); positions and lengths are JavaScript integers and are
  modelled as \<open>int\<close>, so that the \<open>-1\<close> of a failed search and the comparisons of
  the source keep their meaning. None of the functions below looks inside a code unit
  except to compare it with the ASCII characters of a boundary or of a keyword. A size
  (\<open>maxSize\<close>, the concurrency limit) is an integer, as the constants of the source are.
\<close>

abbreviation NL :: char where
  "NL \<equiv> CHR 0x0A"

text \<open>\<open>String.prototype.substring(start, end)\<close>: both arguments are clamped to
  \<open>[0, length]\<close> and swapped when they come in the wrong order.\<close>

definition substring :: "string \<Rightarrow> int \<Rightarrow> int \<Rightarrow> string" where
  "substring text start end =
     (let len = int (length text);
          intStart = min (max start 0) len;
          intEnd = min (max end 0) len;
          from = min intStart intEnd;
          to = max intStart intEnd
      in take (nat (to - from)) (drop (nat from) text))"

text \<open>\<open>text.substring(start)\<close>: the end defaults to the length of the text.\<close>

definition substringFrom :: "string \<Rightarrow> int \<Rightarrow> string" where
  "substringFrom text start = substring text start (int (length text))"

text \<open>Does \<open>searchString\<close> occur in \<open>text\<close> starting at index \<open>k\<close>?\<close>

definition occursAt :: "string \<Rightarrow> string \<Rightarrow> nat \<Rightarrow> bool" where
  "occursAt text searchString k = (take (length searchString) (drop k text) = searchString)"

text \<open>\<open>String.prototype.lastIndexOf(searchString, position)\<close>: the candidate indices
  are tried from \<open>start = min (max position 0) (len - searchLen)\<close> down to \<open>0\<close>; the
  first one at which \<open>searchString\<close> occurs is returned, and \<open>-1\<close> when there is none.\<close>

fun searchDown :: "string \<Rightarrow> string \<Rightarrow> nat \<Rightarrow> int" where
  "searchDown text searchString 0 = (if occursAt text searchString 0 then 0 else - 1)"
| "searchDown text searchString (Suc i) =
     (if occursAt text searchString (Suc i) then int (Suc i)
      else searchDown text searchString i)"

definition lastIndexOf :: "string \<Rightarrow> string \<Rightarrow> int \<Rightarrow> int" where
  "lastIndexOf text searchString position =
     (let len = int (length text); searchLen = int (length searchString)
      in if len < searchLen then - 1
         else searchDown text searchString (nat (min (max position 0) (len - searchLen))))"

section \<open>ChunkSplitter: \<open>splitTextIntoChunks\<close> (translateMd.js, lines 123--158)\<close>

text \<open>The body of one loop iteration that does not end the input (lines 133--152):
  the position at which the next chunk is cut.\<close>

definition nextSplitPos :: "string \<Rightarrow> int \<Rightarrow> int \<Rightarrow> int" where
  "nextSplitPos text startIndex endIndex =
     (let splitPos = lastIndexOf text [NL, NL] endIndex
      in if splitPos \<le> startIndex then
           (let splitPos = lastIndexOf text ''. '' endIndex
            in if splitPos \<le> startIndex then
                 (let splitPos = lastIndexOf text [NL] endIndex
                  in if splitPos \<le> startIndex then endIndex
                     else splitPos + 1)
               else splitPos + 2)
         else splitPos + 2)"

text \<open>The \<open>while\<close> loop, with the cursor \<open>startIndex\<close> and the array \<open>chunks\<close> as
  explicit state. The loop of the source may run forever (it does for
  \<open>maxSize = 0\<close> on a non-empty text), so not returning is the value \<open>None\<close>.\<close>

partial_function (option) splitLoop :: "string \<Rightarrow> int \<Rightarrow> int \<Rightarrow> string list \<Rightarrow> string list option" where
  "splitLoop text maxSize startIndex chunks =
     (if startIndex < int (length text) then
        (let endIndex = startIndex + maxSize
         in if endIndex \<ge> int (length text) then Some (chunks @ [substringFrom text startIndex])
            else (let splitPos = nextSplitPos text startIndex endIndex
                  in splitLoop text maxSize splitPos (chunks @ [substring text startIndex splitPos])))
      else Some chunks)"

declare splitLoop.simps [code]

definition splitTextIntoChunks :: "string \<Rightarrow> int \<Rightarrow> string list option" where
  "splitTextIntoChunks text maxSize = splitLoop text maxSize 0 []"

subsection \<open>The split position as the specification words it\<close>

text \<open>
  The specification (section 4.1) describes the cut in its own words: search backward
  from the candidate end for the best available boundary in priority order (paragraph
  break, sentence-ending punctuation followed by a space, single line break); if none is
  found after the cursor, cut exactly at the candidate end; a boundary that is found is
  included in the chunk. A boundary found by searching backward from the candidate end
  lies before it: it ends at or before the candidate end, as the bound of the specification
  on the length of a chunk needs. The definitions below follow these words, not the code.
\<close>

abbreviation paragraphBreak :: string where
  "paragraphBreak \<equiv> [NL, NL]"

abbreviation lineBreak :: string where
  "lineBreak \<equiv> [NL]"

text \<open>Sentence-ending punctuation followed by a space.\<close>

definition sentenceEnds :: "string list" where
  "sentenceEnds = [''. '', ''! '', ''? '']"

text \<open>The indices strictly after the cursor at which one of the boundaries starts
  and ends at or before the candidate end.\<close>

definition specBoundaryStarts :: "string \<Rightarrow> string list \<Rightarrow> int \<Rightarrow> int \<Rightarrow> nat list" where
  "specBoundaryStarts text boundaries cursor candidateEnd =
     filter (\<lambda>k. cursor < int k
                 \<and> (\<exists>b \<in> set boundaries. occursAt text b k \<and> int k + int (length b) \<le> candidateEnd))
       [0..<length text]"

definition specLastBoundary :: "string \<Rightarrow> string list \<Rightarrow> int \<Rightarrow> int \<Rightarrow> nat option" where
  "specLastBoundary text boundaries cursor candidateEnd =
     (case specBoundaryStarts text boundaries cursor candidateEnd of
        [] \<Rightarrow> None
      | k # ks \<Rightarrow> Some (Max (set (k # ks))))"

definition specSplitPos :: "string \<Rightarrow> int \<Rightarrow> int \<Rightarrow> int" where
  "specSplitPos text cursor candidateEnd =
     (case specLastBoundary text [paragraphBreak] cursor candidateEnd of
        Some k \<Rightarrow> int k + 2
      | None \<Rightarrow>
          (case specLastBoundary text sentenceEnds cursor candidateEnd of
             Some k \<Rightarrow> int k + 2
           | None \<Rightarrow>
               (case specLastBoundary text [lineBreak] cursor candidateEnd of
                  Some k \<Rightarrow> int k + 1
                | None \<Rightarrow> candidateEnd)))"

subsection \<open>The split position, described\<close>

text \<open>
  The description that holds of the code differs from the words of the specification in
  two places. The only sentence boundary is a period followed by a space. A boundary
  counts when it starts strictly after the cursor and at or before the candidate end; it
  may end after the candidate end. The definitions below state this description, by
  the set of the positions of a boundary and not by a search; claim C4 compares them with
  the code.
\<close>

abbreviation periodBreak :: string where
  "periodBreak \<equiv> ''. ''"

text \<open>The indices strictly after the cursor and not after the candidate end at which
  the boundary starts.\<close>

definition boundaryStarts :: "string \<Rightarrow> string \<Rightarrow> int \<Rightarrow> int \<Rightarrow> nat list" where
  "boundaryStarts text boundary cursor candidateEnd =
     filter (\<lambda>k. cursor < int k \<and> int k \<le> candidateEnd \<and> occursAt text boundary k)
       [0..<length text]"

text \<open>The one nearest to the candidate end.\<close>

definition lastBoundary :: "string \<Rightarrow> string \<Rightarrow> int \<Rightarrow> int \<Rightarrow> nat option" where
  "lastBoundary text boundary cursor candidateEnd =
     (case boundaryStarts text boundary cursor candidateEnd of
        [] \<Rightarrow> None
      | k # ks \<Rightarrow> Some (Max (set (k # ks))))"

text \<open>The boundary that is chosen, by priority, with the index at which it starts.\<close>

definition chosenBoundary :: "string \<Rightarrow> int \<Rightarrow> int \<Rightarrow> (nat \<times> string) option" where
  "chosenBoundary text cursor candidateEnd =
     (case lastBoundary text paragraphBreak cursor candidateEnd of
        Some k \<Rightarrow> Some (k, paragraphBreak)
      | None \<Rightarrow>
          (case lastBoundary text periodBreak cursor candidateEnd of
             Some k \<Rightarrow> Some (k, periodBreak)
           | None \<Rightarrow>
               (case lastBoundary text lineBreak cursor candidateEnd of
                  Some k \<Rightarrow> Some (k, lineBreak)
                | None \<Rightarrow> None)))"

text \<open>The cut: right after the chosen boundary, or at the candidate end.\<close>

definition cutPosition :: "string \<Rightarrow> int \<Rightarrow> int \<Rightarrow> int" where
  "cutPosition text cursor candidateEnd =
     (case chosenBoundary text cursor candidateEnd of
        Some (k, boundary) \<Rightarrow> int k + int (length boundary)
      | None \<Rightarrow> candidateEnd)"

text \<open>The chunks from a cursor on: the rest of the text when it ends by the candidate
  end, and otherwise the text up to the cut, followed by the chunks from the cut on. The
  cut lies after the cursor for a positive \<open>maxSize\<close> (lemma \<open>nextSplitPos_range\<close>), so
  the case of a cut that does not advance is never taken.\<close>

function cutChunks :: "string \<Rightarrow> int \<Rightarrow> int \<Rightarrow> string list" where
  "cutChunks text maxSize cursor =
     (if cursor < 0 \<or> int (length text) \<le> cursor then []
      else if int (length text) \<le> cursor + maxSize then [substringFrom text cursor]
      else if cutPosition text cursor (cursor + maxSize) \<le> cursor then []
      else substring text cursor (cutPosition text cursor (cursor + maxSize))
             # cutChunks text maxSize (cutPosition text cursor (cursor + maxSize)))"
  by pat_completeness auto
termination
  by (relation "measure (\<lambda>(text, maxSize, cursor). nat (int (length text) - cursor))") auto

declare cutChunks.simps [simp del]

section \<open>AssetPathRewriter: \<open>adjustHtmlImagePaths\<close> (translateMd.js, lines 161--172)\<close>

text \<open>
  The source is one call of \<open>String.prototype.replace\<close> with the global,
  case-insensitive regular expression \<open><img([^>]+)src="([^"]+)"\<close> and a callback.
  The model follows the backtracking matcher on this expression: \<open><img\<close> and
  \<open>src="\<close> are compared ignoring the case of ASCII letters (a code unit outside ASCII
  never matches an ASCII letter of the pattern), the first group is greedy, so the longest
  run of characters other than \<open>>\<close> after which the rest of the expression still matches
  is taken, and the second group is the run of characters other than \<open>"\<close> up to the next
  \<open>"\<close>, which must exist and be non-empty.
\<close>

abbreviation DQ :: char where
  "DQ \<equiv> CHR 0x22"

definition toLowerAscii :: "char \<Rightarrow> char" where
  "toLowerAscii c =
     (case map_of (zip ''ABCDEFGHIJKLMNOPQRSTUVWXYZ'' ''abcdefghijklmnopqrstuvwxyz'') c of
        Some l \<Rightarrow> l
      | None \<Rightarrow> c)"

text \<open>\<open>s\<close> is the lower-case \<open>keyword\<close>, up to the case of ASCII letters.\<close>

definition matchesIgnoreCase :: "string \<Rightarrow> string \<Rightarrow> bool" where
  "matchesIgnoreCase keyword s = (map toLowerAscii s = keyword)"

text \<open>\<open>String.prototype.startsWith\<close>.\<close>

definition startsWith :: "string \<Rightarrow> string \<Rightarrow> bool" where
  "startsWith s searchString = (take (length searchString) s = searchString)"

text \<open>\<open>([^"]+)"\<close> at the head of \<open>xs\<close>: the captured value.\<close>

definition srcValue :: "string \<Rightarrow> string option" where
  "srcValue xs =
     (let v = takeWhile (\<lambda>c. c \<noteq> DQ) xs
      in if v = [] \<or> dropWhile (\<lambda>c. c \<noteq> DQ) xs = [] then None else Some v)"

text \<open>\<open>src="([^"]+)"\<close> at the head of \<open>xs\<close>: the keyword as written and the value.\<close>

fun srcHere :: "string \<Rightarrow> (string \<times> string) option" where
  "srcHere (a # b # c # d # q # rest) =
     (if matchesIgnoreCase ''src='' [a, b, c, d] \<and> q = DQ then
        (case srcValue rest of
           Some v \<Rightarrow> Some ([a, b, c, d, q], v)
         | None \<Rightarrow> None)
      else None)"
| "srcHere _ = None"

text \<open>\<open>([^>]*)src="([^"]+)"\<close> at the head of \<open>xs\<close>, the first group greedy: a longer
  run of characters other than \<open>>\<close> is preferred to a shorter one.\<close>

fun attrScan :: "string \<Rightarrow> (string \<times> string \<times> string) option" where
  "attrScan [] = None"
| "attrScan (c # cs) =
     (case (if c = CHR ''>'' then None else attrScan cs) of
        Some (attributes, keyword, src) \<Rightarrow> Some (c # attributes, keyword, src)
      | None \<Rightarrow>
          (case srcHere (c # cs) of
             Some (keyword, src) \<Rightarrow> Some ([], keyword, src)
           | None \<Rightarrow> None))"

text \<open>The whole expression at the head of \<open>xs\<close>: the tag as written, the two groups,
  and the keyword as written. The first group has at least one character.\<close>

fun matchImg :: "string \<Rightarrow> (string \<times> string \<times> string \<times> string) option" where
  "matchImg (a # b # c # d # x # rest) =
     (if matchesIgnoreCase ''<img'' [a, b, c, d] \<and> x \<noteq> CHR ''>'' then
        (case attrScan rest of
           Some (attributes, keyword, src) \<Rightarrow> Some ([a, b, c, d], x # attributes, keyword, src)
         | None \<Rightarrow> None)
      else None)"
| "matchImg _ = None"

text \<open>The callback \<open>(match, attributes, src) => ...\<close> (lines 164--171).\<close>

definition imgReplacement :: "string \<Rightarrow> string \<Rightarrow> string \<Rightarrow> string" where
  "imgReplacement match attributes src =
     (if startsWith src ''http://'' \<or> startsWith src ''https://'' \<or> startsWith src ''data:''
         \<or> startsWith src ''../en/''
      then match
      else (let newSrc = (if startsWith src ''/'' then ''../en'' @ src else ''../en/'' @ src)
            in ''<img'' @ attributes @ ''src='' @ [DQ] @ newSrc @ [DQ]))"

text \<open>The global replace: the text is scanned from the left; where the expression
  matches, the callback's result is emitted and the scan continues after the match;
  elsewhere the character is copied.\<close>

fun adjustHtmlImagePaths :: "string \<Rightarrow> string" where
  "adjustHtmlImagePaths [] = []"
| "adjustHtmlImagePaths (c # cs) =
     (case matchImg (c # cs) of
        Some (tag, attributes, keyword, src) \<Rightarrow>
          imgReplacement (tag @ attributes @ keyword @ src @ [DQ]) attributes src
            @ adjustHtmlImagePaths
                (drop (length tag + length attributes + length keyword + length src) cs)
      | None \<Rightarrow> c # adjustHtmlImagePaths cs)"

subsection \<open>The references of a text\<close>

text \<open>
  The matches that the global replace finds, in the order of the text, with the text
  between them: the same scan as \<open>adjustHtmlImagePaths\<close>, which keeps each match (the tag
  and the keyword as written, and the two groups) where the rewrite emits the result of
  the callback. An embedded reference of a text is a match of this scan. Lemma
  \<open>scanImg_output\<close> shows that the rewrite is this scan followed by the callback.
\<close>

datatype segment = Plain char | Reference string string string string

fun scanImg :: "string \<Rightarrow> segment list" where
  "scanImg [] = []"
| "scanImg (c # cs) =
     (case matchImg (c # cs) of
        Some (tag, attributes, keyword, src) \<Rightarrow>
          Reference tag attributes keyword src
            # scanImg (drop (length tag + length attributes + length keyword + length src) cs)
      | None \<Rightarrow> Plain c # scanImg cs)"

text \<open>The text of a segment, and what the rewrite emits for it.\<close>

fun segmentText :: "segment \<Rightarrow> string" where
  "segmentText (Plain c) = [c]"
| "segmentText (Reference tag attributes keyword src) = tag @ attributes @ keyword @ src @ [DQ]"

fun segmentOutput :: "segment \<Rightarrow> string" where
  "segmentOutput (Plain c) = [c]"
| "segmentOutput (Reference tag attributes keyword src) =
     imgReplacement (tag @ attributes @ keyword @ src @ [DQ]) attributes src"

section \<open>TranslationOrchestrator: the tasks of \<open>main\<close> (translateMd.js, lines 229--332)\<close>

definition LARGE_FILE_THRESHOLD :: int where
  "LARGE_FILE_THRESHOLD = 10000"

definition CHUNK_SIZE :: int where
  "CHUNK_SIZE = 10000"

definition CONCURRENCY_LIMIT :: nat where
  "CONCURRENCY_LIMIT = 10"

datatype fileType = Markdown | Html

text \<open>One call of \<open>translateText(text, targetLang, instructions, config, fileType)\<close>; the
  configuration is the same for every call of a run.\<close>

record request =
  reqText :: string
  reqTargetLang :: string
  reqInstructions :: string
  reqFileType :: fileType

text \<open>
  What a run is given and does not change: the files of the source directory, the
  translation service behind \<open>translateText\<close> (an HTTP call; \<open>None\<close> is a call that
  throws), which directory creations and file writes fail, and \<open>path.join\<close>, a function
  of the library of the platform, of which nothing is assumed.
\<close>

record env =
  joinPath :: "string \<Rightarrow> string \<Rightarrow> string"
  sourceFiles :: "string \<rightharpoonup> string"
  translateText :: "request \<Rightarrow> string option"
  mkdirFails :: "string \<Rightarrow> bool"
  writeFails :: "string \<Rightarrow> bool"

text \<open>What a run changes: the files of the output tree, and the calls of
  \<open>translateText\<close> made so far, in order.\<close>

record world =
  files :: "string \<rightharpoonup> string"
  calls :: "request list"

datatype outcome = SkippedExists | SkippedNoTranslate | Copied | Translated | Failed

text \<open>\<open>Array.prototype.join\<close>.\<close>

fun joinStrings :: "string \<Rightarrow> string list \<Rightarrow> string" where
  "joinStrings sep [] = []"
| "joinStrings sep [x] = x"
| "joinStrings sep (x # y # ys) = x @ sep @ joinStrings sep (y # ys)"

text \<open>The loop over the chunks (lines 290--294): the calls are made one after the
  other, and the first call that throws ends the loop.\<close>

fun translateChunks ::
  "env \<Rightarrow> string \<Rightarrow> string \<Rightarrow> fileType \<Rightarrow> string list \<Rightarrow> world \<Rightarrow> string list option \<times> world" where
  "translateChunks e langCode instructions ft [] w = (Some [], w)"
| "translateChunks e langCode instructions ft (chunk # chunks) w =
     (let req = \<lparr>reqText = chunk, reqTargetLang = langCode, reqInstructions = instructions,
                 reqFileType = ft\<rparr>;
          w' = w\<lparr>calls := calls w @ [req]\<rparr>
      in case translateText e req of
           None \<Rightarrow> (None, w')
         | Some translatedChunk \<Rightarrow>
             (case translateChunks e langCode instructions ft chunks w' of
                (None, w'') \<Rightarrow> (None, w'')
              | (Some translatedChunks, w'') \<Rightarrow> (Some (translatedChunk # translatedChunks), w'')))"

text \<open>\<open>splitTextIntoChunks(sourceText, CHUNK_SIZE)\<close> as called by a task. The loop
  returns for a positive \<open>maxSize\<close>, so the second case is never taken (lemma
  \<open>chunksOfSource_defined\<close>).\<close>

definition chunksOfSource :: "string \<Rightarrow> string list" where
  "chunksOfSource sourceText =
     (case splitTextIntoChunks sourceText CHUNK_SIZE of
        Some chunks \<Rightarrow> chunks
      | None \<Rightarrow> [])"

text \<open>Lines 282--300: the translation of the document, chunked if it is large.\<close>

definition translateDocument ::
  "env \<Rightarrow> string \<Rightarrow> string \<Rightarrow> fileType \<Rightarrow> string \<Rightarrow> world \<Rightarrow> string option \<times> world" where
  "translateDocument e langCode instructions ft sourceText w =
     (if int (length sourceText) > LARGE_FILE_THRESHOLD then
        (case translateChunks e langCode instructions ft (chunksOfSource sourceText) w of
           (None, w') \<Rightarrow> (None, w')
         | (Some translatedChunks, w') \<Rightarrow> (Some (joinStrings [NL, NL] translatedChunks), w'))
      else
        (let req = \<lparr>reqText = sourceText, reqTargetLang = langCode,
                    reqInstructions = instructions, reqFileType = ft\<rparr>
         in (translateText e req, w\<lparr>calls := calls w @ [req]\<rparr>)))"

text \<open>The destination path of the task of one language for one file
  (\<open>outputFilePath\<close>, lines 253--254).\<close>

definition destinationOf :: "env \<Rightarrow> string \<Rightarrow> string \<Rightarrow> string \<times> string \<Rightarrow> string" where
  "destinationOf e outputBaseDir baseName entry =
     joinPath e (joinPath e outputBaseDir (fst entry)) baseName"

text \<open>
  The task of one language for one file (lines 257--314). Every exception raised inside
  is caught by the task itself and ends it as \<open>Failed\<close>. \<open>fs.copyFile\<close> fails when the
  source cannot be read or the destination cannot be written. The instruction is
  lower-cased and compared with an ASCII string, so only its ASCII letters matter.
\<close>

definition task ::
  "env \<Rightarrow> string \<Rightarrow> string \<Rightarrow> string \<Rightarrow> fileType \<Rightarrow> string \<Rightarrow> string \<times> string \<Rightarrow> world
     \<Rightarrow> outcome \<times> world" where
  "task e outputBaseDir sourceFilePath baseName ft sourceText entry w =
     (let langCode = fst entry;
          instructions = snd entry;
          targetDir = joinPath e outputBaseDir langCode;
          outputFilePath = joinPath e targetDir baseName
      in if mkdirFails e targetDir then (Failed, w)
         else if files w outputFilePath \<noteq> None then (SkippedExists, w)
         else if map toLowerAscii instructions = ''don't translate'' then (SkippedNoTranslate, w)
         else if langCode = ''en'' then
           (case sourceFiles e sourceFilePath of
              None \<Rightarrow> (Failed, w)
            | Some content \<Rightarrow>
                if writeFails e outputFilePath then (Failed, w)
                else (Copied, w\<lparr>files := (files w)(outputFilePath \<mapsto> content)\<rparr>))
         else
           (case translateDocument e langCode instructions ft sourceText w of
              (None, w') \<Rightarrow> (Failed, w')
            | (Some translation, w') \<Rightarrow>
                (let finalTranslation =
                       (if ft = Html \<and> langCode \<noteq> ''en'' then adjustHtmlImagePaths translation
                        else translation)
                 in if writeFails e outputFilePath then (Failed, w')
                    else (Translated, w'\<lparr>files := (files w')(outputFilePath \<mapsto> finalTranslation)\<rparr>))))"

section \<open>ConcurrencyBatchScheduler: the batch loop of \<open>main\<close> (lines 319--327)\<close>

text \<open>
  The tasks of a batch are started together by \<open>batch.map(task => task())\<close> and the loop
  waits for all of them with \<open>Promise.allSettled\<close>, which never rejects. The model is the
  function that the loop computes on the world: it runs the tasks of a batch one after
  the other, in the order of the batch, and collects their results. How the tasks of a
  batch interleave between their suspension points is not modelled.
\<close>

fun runTasks :: "('w \<Rightarrow> 'r \<times> 'w) list \<Rightarrow> 'w \<Rightarrow> 'r list \<times> 'w" where
  "runTasks [] w = ([], w)"
| "runTasks (t # ts) w =
     (case t w of (r, w') \<Rightarrow> (case runTasks ts w' of (rs, w'') \<Rightarrow> (r # rs, w'')))"

text \<open>\<open>Array.prototype.slice(start, end)\<close> for indices that are not negative.\<close>

definition slice :: "'a list \<Rightarrow> nat \<Rightarrow> nat \<Rightarrow> 'a list" where
  "slice xs start end = take (end - start) (drop start xs)"

text \<open>The \<open>for\<close> loop over the batches, with the index \<open>i\<close>, the results so far and
  the world as state. It runs forever for a limit of \<open>0\<close> and a task list that is not
  empty, so not returning is the value \<open>None\<close>.\<close>

partial_function (option) batchLoop ::
  "nat \<Rightarrow> ('w \<Rightarrow> 'r \<times> 'w) list \<Rightarrow> nat \<Rightarrow> 'r list \<Rightarrow> 'w \<Rightarrow> ('r list \<times> 'w) option" where
  "batchLoop limit tasks i results w =
     (if i < length tasks then
        (let batch = slice tasks i (i + limit);
             (rs, w') = runTasks batch w
         in batchLoop limit tasks (i + limit) (results @ rs) w')
      else Some (results, w))"

declare batchLoop.simps [code]

definition runBatches ::
  "nat \<Rightarrow> ('w \<Rightarrow> 'r \<times> 'w) list \<Rightarrow> 'w \<Rightarrow> ('r list \<times> 'w) option" where
  "runBatches limit tasks w = batchLoop limit tasks 0 [] w"

text \<open>One iteration of the loop over the files (lines 229--332): a file that cannot
  be read is skipped; otherwise one task per entry of \<open>translationFormats\<close> is built, in
  the order of \<open>Object.entries\<close>, and the tasks are run in batches.\<close>

definition processFile ::
  "env \<Rightarrow> string \<Rightarrow> string \<Rightarrow> (string \<times> string) list \<Rightarrow> string \<Rightarrow> world
     \<Rightarrow> (outcome list \<times> world) option" where
  "processFile e sourceDir outputBaseDir translationFormats file w =
     (let sourceFilePath = joinPath e sourceDir file;
          ft = (if map toLowerAscii (drop (length file - 5) file) = ''.html'' then Html else Markdown)
      in case sourceFiles e sourceFilePath of
           None \<Rightarrow> Some ([], w)
         | Some sourceText \<Rightarrow>
             (let translationTasks =
                    map (task e outputBaseDir sourceFilePath file ft sourceText) translationFormats
              in if translationTasks \<noteq> [] then
                   runBatches CONCURRENCY_LIMIT translationTasks w
                 else Some ([], w)))"

fun processFiles ::
  "env \<Rightarrow> string \<Rightarrow> string \<Rightarrow> (string \<times> string) list \<Rightarrow> string list \<Rightarrow> world
     \<Rightarrow> (outcome list list \<times> world) option" where
  "processFiles e sourceDir outputBaseDir translationFormats [] w = Some ([], w)"
| "processFiles e sourceDir outputBaseDir translationFormats (file # rest) w =
     (case processFile e sourceDir outputBaseDir translationFormats file w of
        None \<Rightarrow> None
      | Some (results, w') \<Rightarrow>
          (case processFiles e sourceDir outputBaseDir translationFormats rest w' of
             None \<Rightarrow> None
           | Some (others, w'') \<Rightarrow> Some (results # others, w'')))"

subsection \<open>Completed tasks\<close>

text \<open>The state of a task that a run has dealt with, used to relate a second run to a
  first one: its directory can be created, and its destination file is present, unless
  the task ended as \<open>SkippedNoTranslate\<close>, when its instruction is the sentinel.\<close>

definition completed :: "env \<Rightarrow> string \<Rightarrow> string \<Rightarrow> world \<Rightarrow> string \<times> string \<Rightarrow> outcome \<Rightarrow> bool" where
  "completed e outputBaseDir baseName w entry out =
     (\<not> mkdirFails e (joinPath e outputBaseDir (fst entry))
      \<and> (if out = SkippedNoTranslate then map toLowerAscii (snd entry) = ''don't translate''
         else files w (destinationOf e outputBaseDir baseName entry) \<noteq> None))"

subsection \<open>A scenario of the specification\<close>

text \<open>One source file and a translation service that fails for the language \<open>de\<close>
  (section 8, last scenario).\<close>

definition scenarioEnv :: env where
  "scenarioEnv =
     \<lparr>joinPath = (\<lambda>a b. a @ ''/'' @ b),
      sourceFiles = [''extracted_md/a.md'' \<mapsto> ''Hello''],
      translateText = (\<lambda>req. if reqTargetLang req = ''de'' then None else Some (''Salut'')),
      mkdirFails = (\<lambda>_. False),
      writeFails = (\<lambda>_. False)\<rparr>"

definition emptyWorld :: world where
  "emptyWorld = \<lparr>files = Map.empty, calls = []\<rparr>"

definition scenarioFormats :: "(string \<times> string) list" where
  "scenarioFormats = [(''de'', ''formal''), (''fr'', ''formal''), (''es'', ''Don't translate'')]"

definition scenarioRequest :: "string \<Rightarrow> request" where
  "scenarioRequest langCode =
     \<lparr>reqText = ''Hello'', reqTargetLang = langCode, reqInstructions = ''formal'',
      reqFileType = Markdown\<rparr>"

text \<open>The world after a first run over the scenario, from the empty world.\<close>

definition scenarioAfterFirstRun :: world where
  "scenarioAfterFirstRun =
     \<lparr>files = [''extracted_md/translated/fr/a.md'' \<mapsto> ''Salut''],
      calls = [scenarioRequest ''de'', scenarioRequest ''fr'']\<rparr>"

section \<open>Properties of the string primitives\<close>

lemma occursAt_length:
  assumes "occursAt text pat k" and "pat \<noteq> []"
  shows "k + length pat \<le> length text"
proof -
  from assms(1) have "length (take (length pat) (drop k text)) = length pat"
    unfolding occursAt_def by simp
  then have "min (length pat) (length text - k) = length pat" by simp
  moreover from assms(2) have "0 < length pat" by simp
  ultimately show ?thesis by arith
qed

lemma searchDown_none:
  "searchDown text pat n = - 1 \<Longrightarrow> j \<le> n \<Longrightarrow> \<not> occursAt text pat j"
  by (induction n) (auto simp: le_Suc_eq split: if_splits)

lemma searchDown_found:
  "searchDown text pat n = r \<Longrightarrow> r \<noteq> - 1 \<Longrightarrow>
     0 \<le> r \<and> r \<le> int n \<and> occursAt text pat (nat r)
     \<and> (\<forall>j. r < int j \<and> j \<le> n \<longrightarrow> \<not> occursAt text pat j)"
proof (induction n arbitrary: r)
  case 0
  then show ?case by (auto split: if_splits)
next
  case (Suc n)
  show ?case
  proof (cases "occursAt text pat (Suc n)")
    case True
    with Suc.prems have "r = int (Suc n)" by simp
    with True show ?thesis by (auto simp del: of_nat_Suc)
  next
    case False
    with Suc.prems have "searchDown text pat n = r" by simp
    from Suc.IH [OF this Suc.prems(2)] False show ?thesis
      by (auto simp: le_Suc_eq)
  qed
qed

text \<open>What a search result means, for a non-empty search string.\<close>

lemma lastIndexOf_none:
  assumes "lastIndexOf text pat pos = - 1" and "pat \<noteq> []" and "int j \<le> pos"
  shows "\<not> occursAt text pat j"
proof
  assume occ: "occursAt text pat j"
  from occursAt_length [OF occ assms(2)] have fit: "int j + int (length pat) \<le> int (length text)"
    by simp
  then have "\<not> int (length text) < int (length pat)" by simp
  with assms(1) have "searchDown text pat (nat (min (max pos 0) (int (length text) - int (length pat)))) = - 1"
    by (simp add: lastIndexOf_def Let_def)
  moreover from fit assms(3) have "j \<le> nat (min (max pos 0) (int (length text) - int (length pat)))"
    by simp
  ultimately show False using searchDown_none occ by blast
qed

lemma lastIndexOf_found:
  assumes "lastIndexOf text pat pos = r" and "r \<noteq> - 1" and "pat \<noteq> []"
  shows "0 \<le> r \<and> r \<le> max pos 0 \<and> r + int (length pat) \<le> int (length text)
         \<and> occursAt text pat (nat r)
         \<and> (\<forall>j. r < int j \<and> int j \<le> pos \<longrightarrow> \<not> occursAt text pat j)"
proof -
  let ?n = "nat (min (max pos 0) (int (length text) - int (length pat)))"
  from assms(1,2) have len: "\<not> int (length text) < int (length pat)"
    by (auto simp: lastIndexOf_def Let_def)
  with assms(1) have sd: "searchDown text pat ?n = r"
    by (simp add: lastIndexOf_def Let_def)
  from searchDown_found [OF sd assms(2)]
  have r: "0 \<le> r" "r \<le> int ?n" "occursAt text pat (nat r)"
    and later: "\<And>j. r < int j \<Longrightarrow> j \<le> ?n \<Longrightarrow> \<not> occursAt text pat j"
    by auto
  have "\<not> occursAt text pat j" if "r < int j" "int j \<le> pos" for j
  proof (cases "j \<le> ?n")
    case True
    with later that show ?thesis by simp
  next
    case False
    with that(2) len have "int (length text) - int (length pat) < int j" by simp
    then have "\<not> j + length pat \<le> length text" by simp
    with occursAt_length [OF _ assms(3)] show ?thesis by blast
  qed
  moreover from r len have "r \<le> max pos 0" "r + int (length pat) \<le> int (length text)"
    by simp_all
  ultimately show ?thesis using r by simp
qed

section \<open>The chunk splitter\<close>

text \<open>A cut that does not end the input lies strictly after the cursor, inside the text,
  and at most two characters past the candidate end.\<close>

lemma nextSplitPos_range:
  assumes "0 \<le> s" and "s < e" and "e < int (length text)"
  shows "s < nextSplitPos text s e \<and> nextSplitPos text s e \<le> int (length text)
         \<and> nextSplitPos text s e \<le> e + 2"
proof -
  have two: "s < r + 2 \<and> r + 2 \<le> int (length text) \<and> r + 2 \<le> e + 2"
    if "lastIndexOf text pat e = r" "\<not> r \<le> s" "length pat = 2" for pat r
  proof -
    from that assms have "r \<noteq> - 1" "pat \<noteq> []" by auto
    from lastIndexOf_found [OF that(1) this] that(2,3) assms show ?thesis by simp
  qed
  have one: "s < r + 1 \<and> r + 1 \<le> int (length text) \<and> r + 1 \<le> e + 2"
    if "lastIndexOf text pat e = r" "\<not> r \<le> s" "length pat = 1" for pat r
  proof -
    from that assms have "r \<noteq> - 1" "pat \<noteq> []" by auto
    from lastIndexOf_found [OF that(1) this] that(2,3) assms show ?thesis by simp
  qed
  show ?thesis
    unfolding nextSplitPos_def Let_def
    using two [of "[NL, NL]"] two [of "''. ''"] one [of "[NL]"] assms
    by simp
qed

text \<open>Total correctness of the loop for a positive \<open>maxSize\<close>: an invariant \<open>I\<close> of
  the cursor and the chunks pushed so far that every iteration keeps gives a property \<open>P\<close>
  of the returned array, and the loop does return.\<close>

lemma splitLoop_rule:
  assumes M: "0 < M" and s: "0 \<le> s" and init: "I s acc"
    and step: "\<And>s acc. 0 \<le> s \<Longrightarrow> s + M < int (length text) \<Longrightarrow> I s acc \<Longrightarrow>
       I (nextSplitPos text s (s + M)) (acc @ [substring text s (nextSplitPos text s (s + M))])"
    and last_chunk: "\<And>s acc. 0 \<le> s \<Longrightarrow> s < int (length text) \<Longrightarrow> int (length text) \<le> s + M \<Longrightarrow>
       I s acc \<Longrightarrow> P (acc @ [substringFrom text s])"
    and past_end: "\<And>s acc. int (length text) \<le> s \<Longrightarrow> I s acc \<Longrightarrow> P acc"
  shows "\<exists>r. splitLoop text M s acc = Some r \<and> P r"
  using s init
proof (induction "nat (int (length text) - s)" arbitrary: s acc rule: less_induct)
  case less
  show ?case
  proof (cases "s < int (length text)")
    case False
    with past_end [of s acc] less.prems show ?thesis
      by (subst splitLoop.simps) simp
  next
    case inside: True
    show ?thesis
    proof (cases "int (length text) \<le> s + M")
      case True
      with last_chunk [of s acc] inside less.prems show ?thesis
        by (subst splitLoop.simps) (simp add: Let_def)
    next
      case False
      let ?p = "nextSplitPos text s (s + M)"
      from False M less.prems(1) nextSplitPos_range [of s "s + M" "text"]
      have p: "s < ?p" "?p \<le> int (length text)" by simp_all
      then have "nat (int (length text) - ?p) < nat (int (length text) - s)"
        using inside by simp
      moreover from p less.prems(1) have "0 \<le> ?p" by simp
      moreover from step [of s acc] False less.prems
      have "I ?p (acc @ [substring text s ?p])" by simp
      ultimately have "\<exists>r. splitLoop text M ?p (acc @ [substring text s ?p]) = Some r \<and> P r"
        by (rule less.hyps)
      with inside False show ?thesis
        by (subst splitLoop.simps) (simp add: Let_def)
    qed
  qed
qed

lemma substring_inside:
  assumes "0 \<le> s" and "s \<le> p" and "p \<le> int (length text)"
  shows "substring text s p = take (nat (p - s)) (drop (nat s) text)"
  using assms by (simp add: substring_def Let_def min_def max_def)

lemma substringFrom_inside:
  assumes "0 \<le> s" and "s \<le> int (length text)"
  shows "substringFrom text s = drop (nat s) text"
  using assms by (simp add: substringFrom_def substring_inside)

lemma length_substring_inside:
  assumes "0 \<le> s" and "s \<le> p" and "p \<le> int (length text)"
  shows "int (length (substring text s p)) = p - s"
  using assms by (simp add: substring_inside)

lemma take_append_substring:
  assumes "0 \<le> s" and "s \<le> p" and "p \<le> int (length text)"
  shows "take (nat s) text @ substring text s p = take (nat p) text"
proof -
  from assms have "nat p = nat s + nat (p - s)" by simp
  then show ?thesis
    using assms by (simp add: substring_inside take_add)
qed

text \<open>
  Claim C1 (round trip). For every text \<open>T\<close> and every \<open>maxSize\<close> \<open>M > 0\<close>,
  \<open>splitTextIntoChunks(T, M)\<close> returns, and concatenating its chunks in order yields
  exactly \<open>T\<close>.
\<close>

theorem splitTextIntoChunks_roundtrip:
  assumes "0 < M"
  shows "\<exists>chunks. splitTextIntoChunks T M = Some chunks \<and> concat chunks = T"
  unfolding splitTextIntoChunks_def
proof (rule splitLoop_rule [where I = "\<lambda>s acc. s \<le> int (length T) \<and> concat acc = take (nat s) T"])
  show "0 < M" by fact
  show "(0::int) \<le> 0" by simp
  show "0 \<le> int (length T) \<and> concat [] = take (nat 0) T" by simp
next
  fix s acc
  assume s: "0 \<le> s" "s + M < int (length T)"
    and inv: "s \<le> int (length T) \<and> concat acc = take (nat s) T"
  let ?p = "nextSplitPos T s (s + M)"
  from s assms nextSplitPos_range [of s "s + M" T]
  have p: "s < ?p" "?p \<le> int (length T)" by simp_all
  with s inv take_append_substring [of s ?p T]
  show "?p \<le> int (length T) \<and> concat (acc @ [substring T s ?p]) = take (nat ?p) T"
    by simp
next
  fix s acc
  assume "0 \<le> s" "s < int (length T)"
    and "s \<le> int (length T) \<and> concat acc = take (nat s) T"
  then show "concat (acc @ [substringFrom T s]) = T"
    by (simp add: substringFrom_inside)
next
  fix s acc
  assume "int (length T) \<le> s" and "s \<le> int (length T) \<and> concat acc = take (nat s) T"
  then show "concat acc = T" by simp
qed

theorem splitTextIntoChunks_roundtrip_witness:
  "\<exists>chunks. splitTextIntoChunks ''One. Two. Three four five'' 8 = Some chunks
     \<and> concat chunks = ''One. Two. Three four five''"
  using splitTextIntoChunks_roundtrip [of 8 "''One. Two. Three four five''"] by simp

text \<open>
  Claim C3 (termination). For every text \<open>T\<close> and every \<open>maxSize\<close> \<open>M > 0\<close>,
  \<open>splitTextIntoChunks(T, M)\<close> returns, and in every iteration that continues the loop
  the new cursor is strictly greater than the old one, whatever the text is (so also for
  a text of repeated boundary characters).
\<close>

theorem splitTextIntoChunks_terminates:
  assumes "0 < M"
  shows "(\<exists>chunks. splitTextIntoChunks T M = Some chunks)
         \<and> (\<forall>startIndex. 0 \<le> startIndex \<and> startIndex + M < int (length T)
               \<longrightarrow> startIndex < nextSplitPos T startIndex (startIndex + M))"
proof
  from assms have "\<exists>r. splitLoop T M 0 [] = Some r \<and> True"
    by (rule splitLoop_rule [where I = "\<lambda>_ _. True"]) simp_all
  then show "\<exists>chunks. splitTextIntoChunks T M = Some chunks"
    by (simp add: splitTextIntoChunks_def)
next
  show "\<forall>startIndex. 0 \<le> startIndex \<and> startIndex + M < int (length T)
          \<longrightarrow> startIndex < nextSplitPos T startIndex (startIndex + M)"
  proof (intro allI impI)
    fix s
    assume "0 \<le> s \<and> s + M < int (length T)"
    with assms nextSplitPos_range [of s "s + M" T]
    show "s < nextSplitPos T s (s + M)" by simp
  qed
qed

theorem splitTextIntoChunks_terminates_witness:
  "(\<exists>chunks. splitTextIntoChunks [NL, NL, NL, NL, NL, NL] 1 = Some chunks)
   \<and> (0::int) < nextSplitPos [NL, NL, NL, NL, NL, NL] 0 (0 + 1)
   \<and> (3::int) < nextSplitPos [NL, NL, NL, NL, NL, NL] 3 (3 + 1)"
proof -
  have "(0::int) < 1" by simp
  from splitTextIntoChunks_terminates [OF this, of "[NL, NL, NL, NL, NL, NL]"]
  have ret: "\<exists>chunks. splitTextIntoChunks [NL, NL, NL, NL, NL, NL] 1 = Some chunks"
    and incr: "\<And>s. 0 \<le> s \<Longrightarrow> s + 1 < int (length [NL, NL, NL, NL, NL, NL])
                 \<Longrightarrow> s < nextSplitPos [NL, NL, NL, NL, NL, NL] s (s + 1)"
    by blast+
  from incr [of 0] have "(0::int) < nextSplitPos [NL, NL, NL, NL, NL, NL] 0 (0 + 1)" by simp
  moreover from incr [of 3] have "(3::int) < nextSplitPos [NL, NL, NL, NL, NL, NL] 3 (3 + 1)" by simp
  ultimately show ?thesis using ret by blast
qed

text \<open>
  Claim C10 (no empty chunk). For every text \<open>T\<close> and every \<open>M > 0\<close>, every chunk
  returned by \<open>splitTextIntoChunks(T, M)\<close> is a non-empty string, and the returned list is
  empty exactly when \<open>T\<close> is the empty string.
\<close>

theorem splitTextIntoChunks_nonempty_chunks:
  assumes "0 < M"
  shows "\<exists>chunks. splitTextIntoChunks T M = Some chunks
           \<and> (\<forall>c \<in> set chunks. c \<noteq> []) \<and> (chunks = [] \<longleftrightarrow> T = [])"
proof -
  define I where "I = (\<lambda>(s::int) (acc::string list).
     (\<forall>c \<in> set acc. c \<noteq> []) \<and> (acc = [] \<longrightarrow> s = 0) \<and> (T = [] \<longrightarrow> acc = []))"
  have "\<exists>r. splitLoop T M 0 [] = Some r
          \<and> ((\<forall>c \<in> set r. c \<noteq> []) \<and> (r = [] \<longleftrightarrow> T = []))"
  proof (rule splitLoop_rule [where I = I])
    show "0 < M" by fact
    show "(0::int) \<le> 0" by simp
    show "I 0 []" by (simp add: I_def)
  next
    fix s and acc :: "string list"
    assume s: "0 \<le> s" "s + M < int (length T)" and inv: "I s acc"
    let ?p = "nextSplitPos T s (s + M)"
    from s assms nextSplitPos_range [of s "s + M" T]
    have p: "s < ?p" "?p \<le> int (length T)" by simp_all
    with s length_substring_inside [of s ?p T] have "substring T s ?p \<noteq> []" by auto
    moreover from s assms have "T \<noteq> []" by auto
    ultimately show "I ?p (acc @ [substring T s ?p])"
      using inv by (simp add: I_def)
  next
    fix s and acc :: "string list"
    assume "0 \<le> s" "s < int (length T)" and "I s acc"
    then show "(\<forall>c \<in> set (acc @ [substringFrom T s]). c \<noteq> [])
        \<and> (acc @ [substringFrom T s] = [] \<longleftrightarrow> T = [])"
      by (auto simp: I_def substringFrom_inside)
  next
    fix s and acc :: "string list"
    assume "int (length T) \<le> s" and "I s acc"
    then show "(\<forall>c \<in> set acc. c \<noteq> []) \<and> (acc = [] \<longleftrightarrow> T = [])"
      by (auto simp: I_def)
  qed
  then show ?thesis by (simp add: splitTextIntoChunks_def)
qed

theorem splitTextIntoChunks_nonempty_chunks_witness:
  "\<exists>chunks. splitTextIntoChunks ''ab. cd. ef'' 5 = Some chunks
     \<and> (\<forall>c \<in> set chunks. c \<noteq> []) \<and> (chunks = [] \<longleftrightarrow> ''ab. cd. ef'' = [])"
  using splitTextIntoChunks_nonempty_chunks [of 5 "''ab. cd. ef''"] by simp

text \<open>
  Claim C2 (bound), as amended. For every text \<open>T\<close> and every \<open>M > 0\<close>, every chunk
  returned by \<open>splitTextIntoChunks(T, M)\<close> has length at most \<open>M + 2\<close>: a boundary that
  starts at or before the candidate end \<open>cursor + M\<close> is included whole, so the chunk may
  run up to two characters past \<open>M\<close>. When none of the three searches finds a boundary
  after the cursor, the chunk is a hard cut of length exactly \<open>M\<close>.
\<close>

theorem splitTextIntoChunks_chunk_bound:
  assumes "0 < M"
  shows "(\<exists>chunks. splitTextIntoChunks T M = Some chunks
            \<and> (\<forall>c \<in> set chunks. int (length c) \<le> M + 2))
         \<and> (\<forall>startIndex. 0 \<le> startIndex \<and> startIndex + M < int (length T)
               \<and> lastIndexOf T [NL, NL] (startIndex + M) \<le> startIndex
               \<and> lastIndexOf T ''. '' (startIndex + M) \<le> startIndex
               \<and> lastIndexOf T [NL] (startIndex + M) \<le> startIndex
               \<longrightarrow> int (length (substring T startIndex (nextSplitPos T startIndex (startIndex + M)))) = M)"
proof
  have "\<exists>r. splitLoop T M 0 [] = Some r \<and> (\<forall>c \<in> set r. int (length c) \<le> M + 2)"
  proof (rule splitLoop_rule [where I = "\<lambda>s acc. \<forall>c \<in> set acc. int (length c) \<le> M + 2"])
    show "0 < M" by fact
    show "(0::int) \<le> 0" by simp
    show "\<forall>c \<in> set ([]::string list). int (length c) \<le> M + 2" by simp
  next
    fix s and acc :: "string list"
    assume s: "0 \<le> s" "s + M < int (length T)"
      and inv: "\<forall>c \<in> set acc. int (length c) \<le> M + 2"
    let ?p = "nextSplitPos T s (s + M)"
    from s assms nextSplitPos_range [of s "s + M" T]
    have p: "s < ?p" "?p \<le> int (length T)" "?p \<le> s + M + 2" by simp_all
    with s length_substring_inside [of s ?p T]
    have "int (length (substring T s ?p)) \<le> M + 2" by simp
    with inv show "\<forall>c \<in> set (acc @ [substring T s ?p]). int (length c) \<le> M + 2"
      by simp
  next
    fix s and acc :: "string list"
    assume "0 \<le> s" "s < int (length T)" "int (length T) \<le> s + M"
      and "\<forall>c \<in> set acc. int (length c) \<le> M + 2"
    then show "\<forall>c \<in> set (acc @ [substringFrom T s]). int (length c) \<le> M + 2"
      by (auto simp: substringFrom_inside)
  next
    fix s and acc :: "string list"
    assume "\<forall>c \<in> set acc. int (length c) \<le> M + 2"
    then show "\<forall>c \<in> set acc. int (length c) \<le> M + 2" .
  qed
  then show "\<exists>chunks. splitTextIntoChunks T M = Some chunks
            \<and> (\<forall>c \<in> set chunks. int (length c) \<le> M + 2)"
    by (simp add: splitTextIntoChunks_def)
next
  show "\<forall>startIndex. 0 \<le> startIndex \<and> startIndex + M < int (length T)
               \<and> lastIndexOf T [NL, NL] (startIndex + M) \<le> startIndex
               \<and> lastIndexOf T ''. '' (startIndex + M) \<le> startIndex
               \<and> lastIndexOf T [NL] (startIndex + M) \<le> startIndex
               \<longrightarrow> int (length (substring T startIndex (nextSplitPos T startIndex (startIndex + M)))) = M"
  proof (intro allI impI, elim conjE)
    fix s
    assume s: "0 \<le> s" "s + M < int (length T)"
      and "lastIndexOf T [NL, NL] (s + M) \<le> s" "lastIndexOf T ''. '' (s + M) \<le> s"
        "lastIndexOf T [NL] (s + M) \<le> s"
    then have "nextSplitPos T s (s + M) = s + M"
      by (simp add: nextSplitPos_def)
    with s assms length_substring_inside [of s "s + M" T]
    show "int (length (substring T s (nextSplitPos T s (s + M)))) = M" by simp
  qed
qed

theorem splitTextIntoChunks_chunk_bound_witness:
  "(\<exists>chunks. splitTextIntoChunks ''abcdefgh'' 3 = Some chunks
      \<and> (\<forall>c \<in> set chunks. int (length c) \<le> 3 + 2))
   \<and> int (length (substring ''abcdefgh'' 0 (nextSplitPos ''abcdefgh'' 0 (0 + 3)))) = 3"
proof -
  have "(0::int) < 3" by simp
  from splitTextIntoChunks_chunk_bound [OF this, of "''abcdefgh''"]
  have bound: "\<exists>chunks. splitTextIntoChunks ''abcdefgh'' 3 = Some chunks
      \<and> (\<forall>c \<in> set chunks. int (length c) \<le> 3 + 2)"
    and cut: "\<And>s. 0 \<le> s \<Longrightarrow> s + 3 < int (length ''abcdefgh'')
       \<Longrightarrow> lastIndexOf ''abcdefgh'' [NL, NL] (s + 3) \<le> s
       \<Longrightarrow> lastIndexOf ''abcdefgh'' ''. '' (s + 3) \<le> s
       \<Longrightarrow> lastIndexOf ''abcdefgh'' [NL] (s + 3) \<le> s
       \<Longrightarrow> int (length (substring ''abcdefgh'' s (nextSplitPos ''abcdefgh'' s (s + 3)))) = 3"
    by blast+
  have "int (length (substring ''abcdefgh'' 0 (nextSplitPos ''abcdefgh'' 0 (0 + 3)))) = 3"
    by (rule cut; code_simp)
  with bound show ?thesis by blast
qed

text \<open>
  The bound \<open>length \<le> M\<close> of the specification does not hold: for \<open>M = 2\<close> the
  paragraph break that starts at index 2 of \<open>"ab\\n\\ncd"\<close> is found by
  \<open>lastIndexOf(..., 2)\<close>, and the first chunk has length 4.
\<close>

theorem splitTextIntoChunks_chunk_bound_counterexample:
  "splitTextIntoChunks [CHR ''a'', CHR ''b'', NL, NL, CHR ''c'', CHR ''d''] 2
     = Some [[CHR ''a'', CHR ''b'', NL, NL], ''cd'']
   \<and> \<not> int (length [CHR ''a'', CHR ''b'', NL, NL]) \<le> 2
   \<and> int (length [CHR ''a'', CHR ''b'', NL, NL]) \<noteq> 2"
  by code_simp

lemma lastBoundary_none:
  assumes "lastIndexOf text pat e \<le> cursor" and "pat \<noteq> []"
  shows "lastBoundary text pat cursor e = None"
proof -
  have "\<not> occursAt text pat k" if k: "cursor < int k" "int k \<le> e" for k
  proof (cases "lastIndexOf text pat e = - 1")
    case True
    from lastIndexOf_none [OF True assms(2) k(2)] show ?thesis .
  next
    case False
    from lastIndexOf_found [OF refl False assms(2)] k assms(1) show ?thesis by auto
  qed
  then have "boundaryStarts text pat cursor e = []"
    by (auto simp: boundaryStarts_def filter_empty_conv)
  then show ?thesis by (simp add: lastBoundary_def)
qed

lemma lastBoundary_some:
  assumes "\<not> lastIndexOf text pat e \<le> cursor" and "pat \<noteq> []" and "0 \<le> cursor"
  shows "lastBoundary text pat cursor e = Some (nat (lastIndexOf text pat e))
         \<and> cursor < lastIndexOf text pat e \<and> lastIndexOf text pat e \<le> e
         \<and> lastIndexOf text pat e + int (length pat) \<le> int (length text)
         \<and> occursAt text pat (nat (lastIndexOf text pat e))"
proof -
  let ?r = "lastIndexOf text pat e"
  from assms have ne: "?r \<noteq> - 1" by simp
  from lastIndexOf_found [OF refl ne assms(2)]
  have r: "0 \<le> ?r" "?r \<le> max e 0" "?r + int (length pat) \<le> int (length text)"
    "occursAt text pat (nat ?r)"
    and later: "\<And>j. ?r < int j \<Longrightarrow> int j \<le> e \<Longrightarrow> \<not> occursAt text pat j"
    by auto
  from assms r have re: "cursor < ?r" "?r \<le> e" by (simp_all add: max_def split: if_splits)
  from r assms(2) have "nat ?r < length text" by (cases pat) auto
  with r re have mem: "nat ?r \<in> set (boundaryStarts text pat cursor e)"
    by (simp add: boundaryStarts_def)
  have ub: "k \<le> nat ?r" if "k \<in> set (boundaryStarts text pat cursor e)" for k
  proof (rule ccontr)
    assume "\<not> k \<le> nat ?r"
    with r have "?r < int k" by simp
    moreover from that have "int k \<le> e" "occursAt text pat k"
      by (simp_all add: boundaryStarts_def)
    ultimately show False using later by blast
  qed
  have "Max (set (boundaryStarts text pat cursor e)) = nat ?r"
    by (rule Max_eqI) (use mem ub in auto)
  with mem have "lastBoundary text pat cursor e = Some (nat ?r)"
    by (auto simp: lastBoundary_def split: list.splits)
  with r re show ?thesis by simp
qed

lemma substring_append_boundary:
  assumes "0 \<le> s" and "s \<le> r" and "r + int (length b) \<le> int (length text)"
    and "occursAt text b (nat r)"
  shows "substring text s (r + int (length b)) = substring text s r @ b"
proof -
  from assms have "nat (r + int (length b) - s) = nat (r - s) + length b" by simp
  moreover from assms have "nat (r - s) + nat s = nat r" by simp
  ultimately have "take (nat (r + int (length b) - s)) (drop (nat s) text)
      = take (nat (r - s)) (drop (nat s) text) @ take (length b) (drop (nat r) text)"
    by (simp add: take_add)
  with assms show ?thesis
    by (simp add: substring_inside occursAt_def)
qed


text \<open>The search of the code finds the described position, from every cursor.\<close>

lemma nextSplitPos_cutPosition:
  assumes "0 \<le> cursor"
  shows "nextSplitPos T cursor e = cutPosition T cursor e"
  unfolding nextSplitPos_def cutPosition_def chosenBoundary_def Let_def
  using lastBoundary_none [of T paragraphBreak e cursor]
    lastBoundary_none [of T periodBreak e cursor]
    lastBoundary_none [of T lineBreak e cursor]
    lastBoundary_some [of T paragraphBreak e cursor]
    lastBoundary_some [of T periodBreak e cursor]
    lastBoundary_some [of T lineBreak e cursor] assms
  by (simp split: option.splits)

text \<open>A chosen boundary starts in the window and ends the text that is cut.\<close>

lemma chosenBoundary_included:
  assumes "0 \<le> cursor"
  shows "case chosenBoundary T cursor e of
           None \<Rightarrow> cutPosition T cursor e = e
         | Some (k, boundary) \<Rightarrow>
             cursor < int k \<and> int k \<le> e \<and> occursAt T boundary k
             \<and> substring T cursor (cutPosition T cursor e)
                 = substring T cursor (int k) @ boundary"
proof (cases "chosenBoundary T cursor e")
  case None
  then show ?thesis by (simp add: cutPosition_def)
next
  case (Some kb)
  obtain k b where kb: "kb = (k, b)" by (cases kb)
  from Some kb have "b \<noteq> [] \<and> lastBoundary T b cursor e = Some k"
    by (auto simp: chosenBoundary_def split: option.splits)
  then have b: "b \<noteq> []" and lb: "lastBoundary T b cursor e = Some k" by simp_all
  from lb lastBoundary_none [of T b e cursor] b
  have "\<not> lastIndexOf T b e \<le> cursor" by auto
  from lastBoundary_some [OF this b assms] lb
  have r: "k = nat (lastIndexOf T b e)" "cursor < lastIndexOf T b e"
    "lastIndexOf T b e \<le> e" "lastIndexOf T b e + int (length b) \<le> int (length T)"
    "occursAt T b (nat (lastIndexOf T b e))"
    by simp_all
  from r(1,2) assms have "int k = lastIndexOf T b e" by simp
  with r have k: "cursor < int k" "int k \<le> e" "int k + int (length b) \<le> int (length T)"
    "occursAt T b k"
    by simp_all
  with assms substring_append_boundary [of cursor "int k" b T]
  have "substring T cursor (int k + int (length b)) = substring T cursor (int k) @ b"
    by simp
  with Some kb k show ?thesis by (simp add: cutPosition_def)
qed

text \<open>One step of the described chunks, for a chunk that does not end the input.\<close>

lemma cutChunks_step:
  assumes "0 < M" and "0 \<le> cursor" and "cursor + M < int (length T)"
  shows "cursor < cutPosition T cursor (cursor + M)
     \<and> cutChunks T M cursor
         = substring T cursor (cutPosition T cursor (cursor + M))
             # cutChunks T M (cutPosition T cursor (cursor + M))"
proof -
  from assms nextSplitPos_range [of cursor "cursor + M" T]
  have "cursor < nextSplitPos T cursor (cursor + M)" by simp
  with assms(2) have incr: "cursor < cutPosition T cursor (cursor + M)"
    by (simp add: nextSplitPos_cutPosition)
  with assms show ?thesis by (subst cutChunks.simps) simp
qed

text \<open>The loop returns the chunks pushed so far followed by the described chunks from
  its cursor on.\<close>

lemma splitLoop_cutChunks:
  assumes "0 < M" and "0 \<le> s"
  shows "splitLoop T M s acc = Some (acc @ cutChunks T M s)"
proof -
  have "\<exists>r. splitLoop T M s acc = Some r \<and> r = acc @ cutChunks T M s"
  proof (rule splitLoop_rule
      [where I = "\<lambda>s' acc'. acc' @ cutChunks T M s' = acc @ cutChunks T M s"])
    show "0 < M" by fact
    show "0 \<le> s" by fact
    show "acc @ cutChunks T M s = acc @ cutChunks T M s" ..
  next
    fix s' acc'
    assume s': "0 \<le> s'" "s' + M < int (length T)"
      and I: "acc' @ cutChunks T M s' = acc @ cutChunks T M s"
    from cutChunks_step [OF assms(1) s'] s'(1) I
    show "(acc' @ [substring T s' (nextSplitPos T s' (s' + M))])
            @ cutChunks T M (nextSplitPos T s' (s' + M)) = acc @ cutChunks T M s"
      by (simp add: nextSplitPos_cutPosition)
  next
    fix s' acc'
    assume s': "0 \<le> s'" "s' < int (length T)" "int (length T) \<le> s' + M"
      and I: "acc' @ cutChunks T M s' = acc @ cutChunks T M s"
    from s' have "cutChunks T M s' = [substringFrom T s']"
      by (subst cutChunks.simps) simp
    with I show "acc' @ [substringFrom T s'] = acc @ cutChunks T M s" by simp
  next
    fix s' acc'
    assume s': "int (length T) \<le> s'"
      and I: "acc' @ cutChunks T M s' = acc @ cutChunks T M s"
    from s' have "cutChunks T M s' = []"
      by (subst cutChunks.simps) simp
    with I show "acc' = acc @ cutChunks T M s" by simp
  qed
  then show ?thesis by auto
qed

text \<open>
  The words of the specification do not describe the code in two places. An exclamation
  mark followed by a space is sentence-ending punctuation followed by a space, but the
  code only looks for \<open>". "\<close>: in \<open>"Hello! World and more text"\<close> with \<open>M = 10\<close> the
  specification cuts after \<open>"Hello! "\<close>, at 7, and the code makes a hard cut at 10. A
  boundary found by searching backward from the candidate end lies before it, but
  \<open>lastIndexOf(..., endIndex)\<close> also finds a boundary that starts at the candidate end:
  in \<open>"ab\\n\\ncd"\<close> with \<open>M = 2\<close> the specification finds no boundary and cuts at 2, and
  the code cuts after the paragraph break, at 4.
\<close>

theorem splitTextIntoChunks_cut_positions_counterexample:
  "splitTextIntoChunks ''Hello! World and more text'' 10
     = Some [''Hello! Wor'', ''ld and mor'', ''e text'']
   \<and> nextSplitPos ''Hello! World and more text'' 0 (0 + 10) = 10
   \<and> specSplitPos ''Hello! World and more text'' 0 (0 + 10) = 7
   \<and> nextSplitPos ''Hello! World and more text'' 0 (0 + 10)
       \<noteq> specSplitPos ''Hello! World and more text'' 0 (0 + 10)
   \<and> splitTextIntoChunks [CHR ''a'', CHR ''b'', NL, NL, CHR ''c'', CHR ''d''] 2
       = Some [[CHR ''a'', CHR ''b'', NL, NL], ''cd'']
   \<and> nextSplitPos [CHR ''a'', CHR ''b'', NL, NL, CHR ''c'', CHR ''d''] 0 (0 + 2) = 4
   \<and> specSplitPos [CHR ''a'', CHR ''b'', NL, NL, CHR ''c'', CHR ''d''] 0 (0 + 2) = 2
   \<and> nextSplitPos [CHR ''a'', CHR ''b'', NL, NL, CHR ''c'', CHR ''d''] 0 (0 + 2)
       \<noteq> specSplitPos [CHR ''a'', CHR ''b'', NL, NL, CHR ''c'', CHR ''d''] 0 (0 + 2)"
  by code_simp

text \<open>
  Claim C4 (choice of the split position), with the sentence boundary and the window of
  the code. For every text \<open>T\<close> and every \<open>M > 0\<close>, the chunks returned by
  \<open>splitTextIntoChunks\<close> are the described chunks from cursor 0, and at every cursor
  whose chunk does not end the input (\<open>cursor + M < length T\<close>) the position computed by
  the code is the described one: right after the last paragraph break that starts
  strictly after the cursor and at or before the candidate end \<open>cursor + M\<close>, else right
  after the last such \<open>". "\<close>, else right after the last such line break, else the
  candidate end itself (a hard cut). The chunk from that cursor is the text up to that
  position, a chosen boundary is the end of that chunk, and the next cursor, from which
  the following chunks are cut, lies strictly after the old one.
\<close>

theorem splitTextIntoChunks_cut_positions:
  assumes "0 < M"
  shows "splitTextIntoChunks T M = Some (cutChunks T M 0)
     \<and> (\<forall>cursor. 0 \<le> cursor \<and> cursor + M < int (length T) \<longrightarrow>
           nextSplitPos T cursor (cursor + M) = cutPosition T cursor (cursor + M)
           \<and> cursor < cutPosition T cursor (cursor + M)
           \<and> cutChunks T M cursor
               = substring T cursor (cutPosition T cursor (cursor + M))
                   # cutChunks T M (cutPosition T cursor (cursor + M))
           \<and> (case chosenBoundary T cursor (cursor + M) of
                 None \<Rightarrow> cutPosition T cursor (cursor + M) = cursor + M
               | Some (k, boundary) \<Rightarrow>
                   cursor < int k \<and> int k \<le> cursor + M \<and> occursAt T boundary k
                   \<and> substring T cursor (cutPosition T cursor (cursor + M))
                       = substring T cursor (int k) @ boundary))"
proof -
  from assms splitLoop_cutChunks [of M 0 T "[]"]
  have "splitTextIntoChunks T M = Some (cutChunks T M 0)"
    by (simp add: splitTextIntoChunks_def)
  moreover have "nextSplitPos T cursor (cursor + M) = cutPosition T cursor (cursor + M)
           \<and> cursor < cutPosition T cursor (cursor + M)
           \<and> cutChunks T M cursor
               = substring T cursor (cutPosition T cursor (cursor + M))
                   # cutChunks T M (cutPosition T cursor (cursor + M))
           \<and> (case chosenBoundary T cursor (cursor + M) of
                 None \<Rightarrow> cutPosition T cursor (cursor + M) = cursor + M
               | Some (k, boundary) \<Rightarrow>
                   cursor < int k \<and> int k \<le> cursor + M \<and> occursAt T boundary k
                   \<and> substring T cursor (cutPosition T cursor (cursor + M))
                       = substring T cursor (int k) @ boundary)"
    if "0 \<le> cursor" "cursor + M < int (length T)" for cursor
    using nextSplitPos_cutPosition [OF that(1), of T "cursor + M"]
      cutChunks_step [OF assms that] chosenBoundary_included [OF that(1), of T "cursor + M"]
    by simp
  ultimately show ?thesis by blast
qed

theorem splitTextIntoChunks_cut_positions_witness:
  "splitTextIntoChunks ''One. Two. Three four five'' 8
     = Some (cutChunks ''One. Two. Three four five'' 8 0)
   \<and> cutChunks ''One. Two. Three four five'' 8 0 = [''One. Two. '', ''Three fo'', ''ur five'']
   \<and> nextSplitPos ''One. Two. Three four five'' 0 (0 + 8)
       = cutPosition ''One. Two. Three four five'' 0 (0 + 8)
   \<and> cutPosition ''One. Two. Three four five'' 0 (0 + 8) = 10
   \<and> chosenBoundary ''One. Two. Three four five'' 0 (0 + 8) = Some (8, ''. '')
   \<and> substring ''One. Two. Three four five'' 0
         (cutPosition ''One. Two. Three four five'' 0 (0 + 8))
       = substring ''One. Two. Three four five'' 0 (int 8) @ ''. ''"
proof -
  have M: "0 < (8::int)" by simp
  have cursor: "0 \<le> (0::int) \<and> 0 + 8 < int (length ''One. Two. Three four five'')" by simp
  have chosen: "chosenBoundary ''One. Two. Three four five'' 0 (0 + 8) = Some (8, ''. '')"
    by code_simp
  have chunks: "cutChunks ''One. Two. Three four five'' 8 0
      = [''One. Two. '', ''Three fo'', ''ur five'']"
    by code_simp
  have pos: "cutPosition ''One. Two. Three four five'' 0 (0 + 8) = 10"
    by code_simp
  from splitTextIntoChunks_cut_positions [OF M, of "''One. Two. Three four five''"] cursor
  have "splitTextIntoChunks ''One. Two. Three four five'' 8
        = Some (cutChunks ''One. Two. Three four five'' 8 0)
     \<and> nextSplitPos ''One. Two. Three four five'' 0 (0 + 8)
         = cutPosition ''One. Two. Three four five'' 0 (0 + 8)
     \<and> (case chosenBoundary ''One. Two. Three four five'' 0 (0 + 8) of
           None \<Rightarrow> cutPosition ''One. Two. Three four five'' 0 (0 + 8) = 0 + 8
         | Some (k, boundary) \<Rightarrow>
             0 < int k \<and> int k \<le> 0 + 8 \<and> occursAt ''One. Two. Three four five'' boundary k
             \<and> substring ''One. Two. Three four five'' 0
                   (cutPosition ''One. Two. Three four five'' 0 (0 + 8))
                 = substring ''One. Two. Three four five'' 0 (int k) @ boundary)"
    by blast
  with chosen chunks pos show ?thesis by simp
qed

section \<open>The tasks of the orchestrator\<close>

text \<open>The splitter returns for the chunk size of the source.\<close>

lemma chunksOfSource_defined:
  "splitTextIntoChunks sourceText CHUNK_SIZE = Some (chunksOfSource sourceText)"
proof -
  have "0 < CHUNK_SIZE" by (simp add: CHUNK_SIZE_def)
  then have "\<exists>r. splitLoop sourceText CHUNK_SIZE 0 [] = Some r \<and> True"
    by (rule splitLoop_rule [where I = "\<lambda>_ _. True"]) simp_all
  then show ?thesis by (auto simp: chunksOfSource_def splitTextIntoChunks_def)
qed

text \<open>The chunk loop only appends to the log of calls; when it succeeds, every call it
  made succeeded.\<close>

lemma translateChunks_effect:
  "translateChunks e langCode instructions ft chunks w = (r, w') \<Longrightarrow>
     files w' = files w
     \<and> (\<exists>reqs. calls w' = calls w @ reqs
           \<and> (r \<noteq> None \<longrightarrow> (\<forall>req \<in> set reqs. translateText e req \<noteq> None)))"
proof (induction chunks arbitrary: w r w')
  case Nil
  then show ?case by auto
next
  case (Cons chunk chunks)
  let ?req = "\<lparr>reqText = chunk, reqTargetLang = langCode, reqInstructions = instructions,
                 reqFileType = ft\<rparr>"
  let ?w1 = "w\<lparr>calls := calls w @ [?req]\<rparr>"
  show ?case
  proof (cases "translateText e ?req")
    case None
    with Cons.prems have "r = None" "w' = ?w1" by (simp_all add: Let_def)
    then show ?thesis by simp
  next
    case (Some translatedChunk)
    obtain r2 w2 where rest: "translateChunks e langCode instructions ft chunks ?w1 = (r2, w2)"
      by (cases "translateChunks e langCode instructions ft chunks ?w1")
    from Cons.IH [OF rest] obtain reqs where
      ih: "files w2 = files ?w1" "calls w2 = calls ?w1 @ reqs"
        "r2 \<noteq> None \<longrightarrow> (\<forall>req \<in> set reqs. translateText e req \<noteq> None)"
      by blast
    from Cons.prems Some rest have res: "w' = w2" "r \<noteq> None \<longrightarrow> r2 \<noteq> None"
      by (auto simp: Let_def split: option.splits)
    from ih res Some have "calls w' = calls w @ (?req # reqs)"
      "r \<noteq> None \<longrightarrow> (\<forall>req \<in> set (?req # reqs). translateText e req \<noteq> None)"
      by auto
    moreover from ih(1) res(1) have "files w' = files w" by simp
    ultimately show ?thesis by blast
  qed
qed



lemma translateDocument_effect:
  assumes "translateDocument e langCode instructions ft sourceText w = (r, w')"
  shows "files w' = files w
     \<and> (\<exists>reqs. calls w' = calls w @ reqs
           \<and> (r \<noteq> None \<longrightarrow> (\<forall>req \<in> set reqs. translateText e req \<noteq> None)))"
proof (cases "int (length sourceText) > LARGE_FILE_THRESHOLD")
  case True
  obtain r2 w2 where
    tc: "translateChunks e langCode instructions ft (chunksOfSource sourceText) w = (r2, w2)"
    by (cases "translateChunks e langCode instructions ft (chunksOfSource sourceText) w")
  from assms True tc have "w' = w2" "r \<noteq> None \<longrightarrow> r2 \<noteq> None"
    by (auto simp: translateDocument_def split: option.splits)
  with translateChunks_effect [OF tc] show ?thesis by blast
next
  case False
  let ?req = "\<lparr>reqText = sourceText, reqTargetLang = langCode,
                 reqInstructions = instructions, reqFileType = ft\<rparr>"
  from assms False have r: "r = translateText e ?req" and w': "w' = w\<lparr>calls := calls w @ [?req]\<rparr>"
    by (simp_all add: translateDocument_def Let_def)
  from w' have "calls w' = calls w @ [?req]" "files w' = files w" by simp_all
  moreover from r have "r \<noteq> None \<longrightarrow> (\<forall>req \<in> set [?req]. translateText e req \<noteq> None)" by simp
  ultimately show ?thesis by blast
qed


text \<open>What a task does to the world, by its outcome.\<close>

lemma task_effect:
  assumes "task e outputBaseDir sourceFilePath baseName ft sourceText entry w = (out, w')"
  shows "(\<exists>reqs. calls w' = calls w @ reqs
            \<and> (out \<noteq> Failed \<longrightarrow> (\<forall>req \<in> set reqs. translateText e req \<noteq> None)))
         \<and> (out \<in> {Failed, SkippedExists, SkippedNoTranslate} \<longrightarrow> files w' = files w)
         \<and> (out \<in> {Copied, Translated} \<longrightarrow>
               (\<exists>content. files w' =
                  (files w)(joinPath e (joinPath e outputBaseDir (fst entry)) baseName \<mapsto> content)))
         \<and> (out \<noteq> Failed \<longrightarrow> \<not> mkdirFails e (joinPath e outputBaseDir (fst entry)))
         \<and> (out = SkippedExists \<longrightarrow>
               files w (joinPath e (joinPath e outputBaseDir (fst entry)) baseName) \<noteq> None)"
proof -
  let ?dir = "joinPath e outputBaseDir (fst entry)"
  let ?dest = "joinPath e ?dir baseName"
  consider (mk) "mkdirFails e ?dir"
    | (ex) "\<not> mkdirFails e ?dir" "files w ?dest \<noteq> None"
    | (no) "\<not> mkdirFails e ?dir" "files w ?dest = None"
        "map toLowerAscii (snd entry) = ''don't translate''"
    | (en) "\<not> mkdirFails e ?dir" "files w ?dest = None"
        "map toLowerAscii (snd entry) \<noteq> ''don't translate''" "fst entry = ''en''"
    | (tr) "\<not> mkdirFails e ?dir" "files w ?dest = None"
        "map toLowerAscii (snd entry) \<noteq> ''don't translate''" "fst entry \<noteq> ''en''"
    by blast
  then show ?thesis
  proof cases
    case mk
    with assms have "out = Failed" "w' = w" by (simp_all add: task_def Let_def)
    then show ?thesis by simp
  next
    case ex
    with assms have "out = SkippedExists" "w' = w" by (simp_all add: task_def Let_def)
    with ex show ?thesis by simp
  next
    case no
    with assms have "out = SkippedNoTranslate" "w' = w" by (simp_all add: task_def Let_def)
    with no show ?thesis by simp
  next
    case en
    with assms have
      "(out = Failed \<and> w' = w)
       \<or> (\<exists>content. out = Copied \<and> w' = w\<lparr>files := (files w)(?dest \<mapsto> content)\<rparr>)"
      by (auto simp: task_def Let_def split: option.splits if_splits)
    with en show ?thesis by auto
  next
    case tr
    obtain r w2 where td: "translateDocument e (fst entry) (snd entry) ft sourceText w = (r, w2)"
      by (cases "translateDocument e (fst entry) (snd entry) ft sourceText w")
    from translateDocument_effect [OF td] obtain reqs where
      eff: "files w2 = files w" "calls w2 = calls w @ reqs"
        "r \<noteq> None \<longrightarrow> (\<forall>req \<in> set reqs. translateText e req \<noteq> None)"
      by blast
    from assms tr td have
      "(out = Failed \<and> w' = w2)
       \<or> (\<exists>content. r \<noteq> None \<and> out = Translated \<and> w' = w2\<lparr>files := (files w2)(?dest \<mapsto> content)\<rparr>)"
      by (auto simp: task_def Let_def split: option.splits if_splits)
    then show ?thesis
    proof
      assume "out = Failed \<and> w' = w2"
      with eff show ?thesis by auto
    next
      assume "\<exists>content. r \<noteq> None \<and> out = Translated \<and> w' = w2\<lparr>files := (files w2)(?dest \<mapsto> content)\<rparr>"
      then obtain content where
        c: "r \<noteq> None" "out = Translated" "w' = w2\<lparr>files := (files w2)(?dest \<mapsto> content)\<rparr>"
        by blast
      with eff tr have "calls w' = calls w @ reqs" "\<forall>req \<in> set reqs. translateText e req \<noteq> None"
        "files w' = (files w)(?dest \<mapsto> content)"
        by simp_all
      with c(2) tr show ?thesis by auto
    qed
  qed
qed



text \<open>
  Claim C8 (sentinel). For every task whose instruction string is \<open>"don't translate"\<close>
  up to case, the task leaves the world as it is: it makes no call of the translation
  service and writes no file; it ends as skipped (or failed, when its directory cannot be
  created).
\<close>

theorem sentinel_suppresses_translation:
  assumes "map toLowerAscii instructions = ''don't translate''"
  shows "snd (task e outputBaseDir sourceFilePath baseName ft sourceText (langCode, instructions) w) = w
         \<and> fst (task e outputBaseDir sourceFilePath baseName ft sourceText (langCode, instructions) w)
             \<in> {Failed, SkippedExists, SkippedNoTranslate}"
  using assms by (simp add: task_def Let_def)


section \<open>The batch scheduler\<close>

lemma runTasks_append:
  "runTasks (xs @ ys) w =
     (fst (runTasks xs w) @ fst (runTasks ys (snd (runTasks xs w))),
      snd (runTasks ys (snd (runTasks xs w))))"
  by (induction xs arbitrary: w) (auto split: prod.splits)

lemma length_runTasks: "length (fst (runTasks ts w)) = length ts"
proof (induction ts arbitrary: w)
  case Nil
  show ?case by simp
next
  case (Cons t ts)
  from Cons.IH [of "snd (t w)"] show ?case
    by (cases "t w"; cases "runTasks ts (snd (t w))") simp
qed

text \<open>For a positive limit the loop returns: every task is run, in the order of the
  list, and the report holds their results in that order.\<close>

lemma batchLoop_runTasks:
  assumes "0 < K"
  shows "batchLoop K tasks i results w
     = Some (results @ fst (runTasks (drop i tasks) w), snd (runTasks (drop i tasks) w))"
proof (induction "length tasks - i" arbitrary: i results w rule: less_induct)
  case less
  show ?case
  proof (cases "i < length tasks")
    case False
    then show ?thesis
      by (subst batchLoop.simps) simp
  next
    case True
    let ?batch = "slice tasks i (i + K)"
    have split: "drop i tasks = ?batch @ drop (i + K) tasks"
      by (simp add: slice_def add.commute [of i K] flip: drop_drop)
    from True assms have "length tasks - (i + K) < length tasks - i" by simp
    note ih = less.hyps [OF this]
    show ?thesis
      by (subst batchLoop.simps)
        (simp add: True Let_def ih split runTasks_append split: prod.splits)
  qed
qed

lemma CONCURRENCY_LIMIT_positive: "0 < CONCURRENCY_LIMIT"
  by (simp add: CONCURRENCY_LIMIT_def)

text \<open>The tasks of one file, run in batches, are the tasks run in order.\<close>

lemma processFile_runTasks:
  "processFile e sourceDir outputBaseDir translationFormats file w =
     (case sourceFiles e (joinPath e sourceDir file) of
        None \<Rightarrow> Some ([], w)
      | Some sourceText \<Rightarrow>
          Some (runTasks
                  (map (task e outputBaseDir (joinPath e sourceDir file) file
                          (if map toLowerAscii (drop (length file - 5) file) = ''.html'' then Html
                           else Markdown) sourceText)
                     translationFormats) w))"
proof (cases "sourceFiles e (joinPath e sourceDir file)")
  case None
  then show ?thesis by (simp add: processFile_def)
next
  case (Some sourceText)
  let ?tasks = "map (task e outputBaseDir (joinPath e sourceDir file) file
                          (if map toLowerAscii (drop (length file - 5) file) = ''.html'' then Html
                           else Markdown) sourceText) translationFormats"
  have "runBatches CONCURRENCY_LIMIT ?tasks w
      = Some (fst (runTasks ?tasks w), snd (runTasks ?tasks w))"
    using batchLoop_runTasks [OF CONCURRENCY_LIMIT_positive, of ?tasks 0 "[]" w]
    by (simp add: runBatches_def)
  moreover have "translationFormats = [] \<Longrightarrow> runTasks ?tasks w = ([], w)" by simp
  ultimately show ?thesis
    using Some by (cases "translationFormats = []") (simp_all add: processFile_def Let_def)
qed

section \<open>The scenario\<close>

theorem sentinel_suppresses_translation_witness:
  "snd (task scenarioEnv ''extracted_md/translated'' ''extracted_md/a.md'' ''a.md'' Markdown
          ''Hello'' (''es'', ''Don't translate'') emptyWorld) = emptyWorld
   \<and> fst (task scenarioEnv ''extracted_md/translated'' ''extracted_md/a.md'' ''a.md'' Markdown
          ''Hello'' (''es'', ''Don't translate'') emptyWorld)
        \<in> {Failed, SkippedExists, SkippedNoTranslate}"
proof -
  have "map toLowerAscii ''Don't translate'' = ''don't translate''"
    by (simp add: toLowerAscii_def)
  then show ?thesis by (rule sentinel_suppresses_translation)
qed



section \<open>Resuming a run\<close>

lemma task_destination_exists:
  assumes "files w (destinationOf e outputBaseDir baseName entry) \<noteq> None"
  shows "snd (task e outputBaseDir sourceFilePath baseName ft sourceText entry w) = w
     \<and> fst (task e outputBaseDir sourceFilePath baseName ft sourceText entry w)
         = (if mkdirFails e (joinPath e outputBaseDir (fst entry)) then Failed else SkippedExists)"
  using assms by (simp add: task_def destinationOf_def Let_def)

lemma task_monotone:
  assumes "files w p \<noteq> None"
  shows "files (snd (task e outputBaseDir sourceFilePath baseName ft sourceText entry w)) p \<noteq> None"
proof -
  obtain out w' where t: "task e outputBaseDir sourceFilePath baseName ft sourceText entry w = (out, w')"
    by (cases "task e outputBaseDir sourceFilePath baseName ft sourceText entry w")
  from task_effect [OF t] have
    "out \<in> {Failed, SkippedExists, SkippedNoTranslate} \<longrightarrow> files w' = files w"
    "out \<in> {Copied, Translated} \<longrightarrow>
       (\<exists>content. files w' = (files w)(joinPath e (joinPath e outputBaseDir (fst entry)) baseName \<mapsto> content))"
    by blast+
  with assms have "files w' p \<noteq> None" by (cases out) auto
  with t show ?thesis by simp
qed

text \<open>A task that did not fail is completed in the world it leaves.\<close>

lemma task_not_failed:
  assumes "task e outputBaseDir sourceFilePath baseName ft sourceText entry w = (out, w')"
    and "out \<noteq> Failed"
  shows "completed e outputBaseDir baseName w' entry out"
proof -
  from task_effect [OF assms(1)] have
    eff: "out \<in> {Failed, SkippedExists, SkippedNoTranslate} \<longrightarrow> files w' = files w"
    "out \<in> {Copied, Translated} \<longrightarrow>
       (\<exists>content. files w' = (files w)(joinPath e (joinPath e outputBaseDir (fst entry)) baseName \<mapsto> content))"
    "out \<noteq> Failed \<longrightarrow> \<not> mkdirFails e (joinPath e outputBaseDir (fst entry))"
    "out = SkippedExists \<longrightarrow>
       files w (joinPath e (joinPath e outputBaseDir (fst entry)) baseName) \<noteq> None"
    by blast+
  have sentinel: "map toLowerAscii (snd entry) = ''don't translate''"
    if "out = SkippedNoTranslate"
  proof (rule ccontr)
    assume "map toLowerAscii (snd entry) \<noteq> ''don't translate''"
    with assms(1) have "out \<noteq> SkippedNoTranslate"
      by (auto simp: task_def Let_def split: if_splits option.splits prod.splits)
    with that show False by simp
  qed
  from eff assms(2) sentinel show ?thesis
    by (cases out) (auto simp: completed_def destinationOf_def)
qed

text \<open>Such a task, run again, is skipped and leaves the world as it is.\<close>

lemma task_completed:
  assumes "\<not> mkdirFails e (joinPath e outputBaseDir (fst entry))"
    and "files v (destinationOf e outputBaseDir baseName entry) \<noteq> None
         \<or> map toLowerAscii (snd entry) = ''don't translate''"
  shows "task e outputBaseDir sourceFilePath baseName ft sourceText entry v
     = (if files v (destinationOf e outputBaseDir baseName entry) \<noteq> None then SkippedExists
        else SkippedNoTranslate, v)"
  using assms by (auto simp: task_def destinationOf_def Let_def)

text \<open>The tasks of one file, run in order.\<close>

lemma runTasks_not_failed:
  assumes "runTasks (map (task e outputBaseDir sourceFilePath baseName ft sourceText) entries) w = (outs, w')"
    and "Failed \<notin> set outs"
  shows "(\<forall>p. files w p \<noteq> None \<longrightarrow> files w' p \<noteq> None)
     \<and> list_all2 (completed e outputBaseDir baseName w')
        entries outs"
  using assms
proof (induction entries arbitrary: w outs w')
  case Nil
  then show ?case by simp
next
  case (Cons entry entries)
  obtain out w1 where t: "task e outputBaseDir sourceFilePath baseName ft sourceText entry w = (out, w1)"
    by (cases "task e outputBaseDir sourceFilePath baseName ft sourceText entry w")
  obtain outs1 w2 where r: "runTasks (map (task e outputBaseDir sourceFilePath baseName ft sourceText) entries) w1 = (outs1, w2)"
    by (cases "runTasks (map (task e outputBaseDir sourceFilePath baseName ft sourceText) entries) w1")
  from Cons.prems t r have res: "outs = out # outs1" "w' = w2" by simp_all
  with Cons.prems(2) have ok: "out \<noteq> Failed" "Failed \<notin> set outs1" by auto
  from Cons.IH [OF r ok(2)] have
    mono2: "\<And>p. files w1 p \<noteq> None \<Longrightarrow> files w2 p \<noteq> None"
    and rest: "list_all2 (completed e outputBaseDir baseName w2)
        entries outs1"
    by blast+
  have mono1: "files w1 p \<noteq> None" if "files w p \<noteq> None" for p
    using task_monotone [OF that, of e outputBaseDir sourceFilePath baseName ft sourceText entry] t
    by simp
  have mono: "\<forall>p. files w p \<noteq> None \<longrightarrow> files w' p \<noteq> None"
    using mono1 mono2 res(2) by blast
  from task_not_failed [OF t ok(1)] mono2 have "completed e outputBaseDir baseName w2 entry out"
    by (auto simp: completed_def split: if_splits)
  with rest mono res show ?case by simp
qed

lemma runTasks_completed:
  assumes "list_all2 (completed e outputBaseDir baseName v)
        entries outs"
  shows "\<exists>outs2.
       runTasks (map (task e outputBaseDir sourceFilePath baseName ft sourceText) entries) v
         = (outs2, v)
       \<and> list_all2 (\<lambda>out out2. out2 = SkippedExists
                       \<or> (out = SkippedNoTranslate \<and> out2 = SkippedNoTranslate)) outs outs2"
  using assms
proof (induction entries outs rule: list_all2_induct)
  case Nil
  show ?case by simp
next
  case (Cons entry entries out outs)
  from Cons.IH obtain outs2 where
    rest: "runTasks (map (task e outputBaseDir sourceFilePath baseName ft sourceText) entries) v
         = (outs2, v)"
    "list_all2 (\<lambda>out out2. out2 = SkippedExists
                  \<or> (out = SkippedNoTranslate \<and> out2 = SkippedNoTranslate)) outs outs2"
    by blast
  let ?out2 = "if files v (destinationOf e outputBaseDir baseName entry) \<noteq> None then SkippedExists
        else SkippedNoTranslate"
  from Cons.hyps(1) have
    "\<not> mkdirFails e (joinPath e outputBaseDir (fst entry))"
    "files v (destinationOf e outputBaseDir baseName entry) \<noteq> None
       \<or> map toLowerAscii (snd entry) = ''don't translate''"
    by (auto simp: completed_def split: if_splits)
  from task_completed [OF this]
  have t: "task e outputBaseDir sourceFilePath baseName ft sourceText entry v = (?out2, v)" .
  from Cons.hyps(1) have "?out2 = SkippedExists \<or> (out = SkippedNoTranslate \<and> ?out2 = SkippedNoTranslate)"
    by (auto simp: completed_def split: if_splits)
  with rest t show ?case by simp
qed

text \<open>The files of a run, in order.\<close>

lemma processFiles_not_failed:
  assumes "processFiles e sourceDir outputBaseDir formats fs w = Some (outss, w')"
    and "\<forall>outs \<in> set outss. Failed \<notin> set outs"
  shows "(\<forall>p. files w p \<noteq> None \<longrightarrow> files w' p \<noteq> None)
     \<and> list_all2 (\<lambda>name outs.
          case sourceFiles e (joinPath e sourceDir name) of
            None \<Rightarrow> outs = []
          | Some _ \<Rightarrow>
              list_all2 (completed e outputBaseDir name w')
              formats outs)
        fs outss"
  using assms
proof (induction fs arbitrary: w outss w')
  case Nil
  then show ?case by simp
next
  case (Cons name fs)
  let ?ft = "if map toLowerAscii (drop (length name - 5) name) = ''.html'' then Html else Markdown"
  obtain outs1 w1 where pf: "processFile e sourceDir outputBaseDir formats name w = Some (outs1, w1)"
    by (cases "sourceFiles e (joinPath e sourceDir name)")
       (auto simp: processFile_runTasks prod_eq_iff)
  with Cons.prems obtain outss2 where
    rest: "processFiles e sourceDir outputBaseDir formats fs w1 = Some (outss2, w')"
    and outss: "outss = outs1 # outss2"
    by (auto split: option.splits)
  from outss Cons.prems(2) have ok: "Failed \<notin> set outs1" "\<forall>outs \<in> set outss2. Failed \<notin> set outs"
    by simp_all
  from Cons.IH [OF rest ok(2)] have
    mono2: "\<And>p. files w1 p \<noteq> None \<Longrightarrow> files w' p \<noteq> None"
    and done2: "list_all2 (\<lambda>name outs.
          case sourceFiles e (joinPath e sourceDir name) of
            None \<Rightarrow> outs = []
          | Some _ \<Rightarrow>
              list_all2 (completed e outputBaseDir name w')
              formats outs)
        fs outss2"
    by blast+
  have first: "(\<forall>p. files w p \<noteq> None \<longrightarrow> files w1 p \<noteq> None)
     \<and> (case sourceFiles e (joinPath e sourceDir name) of
            None \<Rightarrow> outs1 = []
          | Some _ \<Rightarrow>
              list_all2 (completed e outputBaseDir name w')
              formats outs1)"
  proof (cases "sourceFiles e (joinPath e sourceDir name)")
    case None
    with pf show ?thesis by (simp add: processFile_runTasks)
  next
    case (Some sourceText)
    with pf have "runTasks (map (task e outputBaseDir (joinPath e sourceDir name) name ?ft sourceText)
        formats) w = (outs1, w1)"
      by (simp add: processFile_runTasks)
    from runTasks_not_failed [OF this ok(1)] have
      mono1: "\<forall>p. files w p \<noteq> None \<longrightarrow> files w1 p \<noteq> None"
      and done1: "list_all2 (completed e outputBaseDir name w1)
              formats outs1"
      by blast+
    from done1 have "list_all2 (completed e outputBaseDir name w')
              formats outs1"
      by (rule list_all2_mono) (use mono2 in \<open>auto simp: completed_def split: if_splits\<close>)
    with mono1 Some show ?thesis by simp
  qed
  with mono2 have "\<forall>p. files w p \<noteq> None \<longrightarrow> files w' p \<noteq> None" by blast
  with first done2 outss show ?case by simp
qed

lemma processFiles_completed:
  assumes "list_all2 (\<lambda>name outs.
          case sourceFiles e (joinPath e sourceDir name) of
            None \<Rightarrow> outs = []
          | Some _ \<Rightarrow>
              list_all2 (completed e outputBaseDir name v)
              formats outs)
        fs outss"
  shows "\<exists>outss2. processFiles e sourceDir outputBaseDir formats fs v = Some (outss2, v)
       \<and> list_all2 (list_all2 (\<lambda>out out2. out2 = SkippedExists
                       \<or> (out = SkippedNoTranslate \<and> out2 = SkippedNoTranslate))) outss outss2"
  using assms
proof (induction fs outss rule: list_all2_induct)
  case Nil
  show ?case by simp
next
  case (Cons name fs outs outss)
  from Cons.IH obtain outss2 where
    rest: "processFiles e sourceDir outputBaseDir formats fs v = Some (outss2, v)"
    "list_all2 (list_all2 (\<lambda>out out2. out2 = SkippedExists
                  \<or> (out = SkippedNoTranslate \<and> out2 = SkippedNoTranslate))) outss outss2"
    by blast
  have "\<exists>outs2. processFile e sourceDir outputBaseDir formats name v = Some (outs2, v)
       \<and> list_all2 (\<lambda>out out2. out2 = SkippedExists
                       \<or> (out = SkippedNoTranslate \<and> out2 = SkippedNoTranslate)) outs outs2"
  proof (cases "sourceFiles e (joinPath e sourceDir name)")
    case None
    with Cons.hyps(1) show ?thesis by (simp add: processFile_runTasks)
  next
    case (Some sourceText)
    with Cons.hyps(1) have "list_all2 (completed e outputBaseDir name v)
              formats outs"
      by simp
    from runTasks_completed [OF this] Some show ?thesis
      by (simp add: processFile_runTasks)
  qed
  with rest show ?case by auto
qed

text \<open>
  Claim C5 (resumability), for a first run in which no task failed. Every task whose
  destination file exists leaves the world as it is, before any translation or write: it
  ends as \<open>SkippedExists\<close> (as \<open>Failed\<close> when its directory cannot be created). So when
  no task of a first run ended as \<open>Failed\<close>, a second run with the same inputs, from the
  world the first run left, returns that world: it makes no call of the translation
  service and writes nothing. Every task of the second run ends as \<open>SkippedExists\<close>,
  except that a task that ended as \<open>SkippedNoTranslate\<close> in the first run may end as
  \<open>SkippedNoTranslate\<close> again.
\<close>

theorem second_run_skips_existing:
  assumes "processFiles e sourceDir outputBaseDir formats fs w = Some (outss, w')"
    and "\<forall>outs \<in> set outss. Failed \<notin> set outs"
  shows "(\<exists>outss2. processFiles e sourceDir outputBaseDir formats fs w' = Some (outss2, w')
            \<and> list_all2 (list_all2 (\<lambda>out out2. out2 = SkippedExists
                  \<or> (out = SkippedNoTranslate \<and> out2 = SkippedNoTranslate))) outss outss2)
         \<and> (\<forall>v sourceFilePath baseName ft sourceText entry.
               files v (destinationOf e outputBaseDir baseName entry) \<noteq> None \<longrightarrow>
               snd (task e outputBaseDir sourceFilePath baseName ft sourceText entry v) = v
               \<and> fst (task e outputBaseDir sourceFilePath baseName ft sourceText entry v)
                   = (if mkdirFails e (joinPath e outputBaseDir (fst entry)) then Failed
                      else SkippedExists))"
proof -
  from processFiles_not_failed [OF assms] have "list_all2 (\<lambda>name outs.
          case sourceFiles e (joinPath e sourceDir name) of
            None \<Rightarrow> outs = []
          | Some _ \<Rightarrow>
              list_all2 (completed e outputBaseDir name w')
              formats outs)
        fs outss"
    by blast
  from processFiles_completed [OF this] task_destination_exists show ?thesis by blast
qed

lemmas scenario_defs =
  task_def translateDocument_def scenarioEnv_def emptyWorld_def scenarioRequest_def
  scenarioAfterFirstRun_def scenarioFormats_def toLowerAscii_def
  LARGE_FILE_THRESHOLD_def processFile_runTasks Let_def

text \<open>
  A second run does not resolve every task to \<open>SkippedExists\<close> without a call in
  general. In the scenario the first run leaves no file for \<open>de\<close> (its request throws)
  and none for \<open>es\<close> (the sentinel); the second run calls the service again for \<open>de\<close>
  and ends \<open>es\<close> as \<open>SkippedNoTranslate\<close> again.
\<close>

theorem second_run_skips_existing_counterexample:
  "processFiles scenarioEnv ''extracted_md'' ''extracted_md/translated'' scenarioFormats
     [''a.md''] emptyWorld
     = Some ([[Failed, Translated, SkippedNoTranslate]], scenarioAfterFirstRun)
   \<and> processFiles scenarioEnv ''extracted_md'' ''extracted_md/translated'' scenarioFormats
       [''a.md''] scenarioAfterFirstRun
     = Some ([[Failed, SkippedExists, SkippedNoTranslate]],
             scenarioAfterFirstRun
               \<lparr>calls := calls scenarioAfterFirstRun @ [scenarioRequest ''de'']\<rparr>)
   \<and> calls (scenarioAfterFirstRun
               \<lparr>calls := calls scenarioAfterFirstRun @ [scenarioRequest ''de'']\<rparr>)
       \<noteq> calls scenarioAfterFirstRun
   \<and> [[Failed, SkippedExists, SkippedNoTranslate]]
       \<noteq> [[SkippedExists, SkippedExists, SkippedExists]]"
  by (simp add: scenario_defs)

lemma scenario_good_first_run:
  "processFiles scenarioEnv ''extracted_md'' ''extracted_md/translated''
     [(''fr'', ''formal''), (''en'', ''source''), (''es'', ''Don't translate'')]
     [''a.md'', ''missing.md''] emptyWorld
   = Some ([[Translated, Copied, SkippedNoTranslate], []],
           \<lparr>files = [''extracted_md/translated/fr/a.md'' \<mapsto> ''Salut'',
                     ''extracted_md/translated/en/a.md'' \<mapsto> ''Hello''],
            calls = [scenarioRequest ''fr'']\<rparr>)"
  by (simp add: scenario_defs)

theorem second_run_skips_existing_witness:
  "(\<exists>outss2.
      processFiles scenarioEnv ''extracted_md'' ''extracted_md/translated''
        [(''fr'', ''formal''), (''en'', ''source''), (''es'', ''Don't translate'')]
        [''a.md'', ''missing.md'']
        \<lparr>files = [''extracted_md/translated/fr/a.md'' \<mapsto> ''Salut'',
                  ''extracted_md/translated/en/a.md'' \<mapsto> ''Hello''],
         calls = [scenarioRequest ''fr'']\<rparr>
      = Some (outss2,
              \<lparr>files = [''extracted_md/translated/fr/a.md'' \<mapsto> ''Salut'',
                        ''extracted_md/translated/en/a.md'' \<mapsto> ''Hello''],
               calls = [scenarioRequest ''fr'']\<rparr>)
      \<and> list_all2 (list_all2 (\<lambda>out out2. out2 = SkippedExists
              \<or> (out = SkippedNoTranslate \<and> out2 = SkippedNoTranslate)))
          [[Translated, Copied, SkippedNoTranslate], []] outss2)
   \<and> processFiles scenarioEnv ''extracted_md'' ''extracted_md/translated''
       [(''fr'', ''formal''), (''en'', ''source''), (''es'', ''Don't translate'')]
       [''a.md'', ''missing.md'']
       \<lparr>files = [''extracted_md/translated/fr/a.md'' \<mapsto> ''Salut'',
                 ''extracted_md/translated/en/a.md'' \<mapsto> ''Hello''],
        calls = [scenarioRequest ''fr'']\<rparr>
     = Some ([[SkippedExists, SkippedExists, SkippedNoTranslate], []],
             \<lparr>files = [''extracted_md/translated/fr/a.md'' \<mapsto> ''Salut'',
                       ''extracted_md/translated/en/a.md'' \<mapsto> ''Hello''],
              calls = [scenarioRequest ''fr'']\<rparr>)"
proof -
  have good: "\<forall>outs \<in> set [[Translated, Copied, SkippedNoTranslate], []]. Failed \<notin> set outs"
    by simp
  from second_run_skips_existing [OF scenario_good_first_run good]
  have "\<exists>outss2.
      processFiles scenarioEnv ''extracted_md'' ''extracted_md/translated''
        [(''fr'', ''formal''), (''en'', ''source''), (''es'', ''Don't translate'')]
        [''a.md'', ''missing.md'']
        \<lparr>files = [''extracted_md/translated/fr/a.md'' \<mapsto> ''Salut'',
                  ''extracted_md/translated/en/a.md'' \<mapsto> ''Hello''],
         calls = [scenarioRequest ''fr'']\<rparr>
      = Some (outss2,
              \<lparr>files = [''extracted_md/translated/fr/a.md'' \<mapsto> ''Salut'',
                        ''extracted_md/translated/en/a.md'' \<mapsto> ''Hello''],
               calls = [scenarioRequest ''fr'']\<rparr>)
      \<and> list_all2 (list_all2 (\<lambda>out out2. out2 = SkippedExists
              \<or> (out = SkippedNoTranslate \<and> out2 = SkippedNoTranslate)))
          [[Translated, Copied, SkippedNoTranslate], []] outss2"
    by blast
  moreover have "processFiles scenarioEnv ''extracted_md'' ''extracted_md/translated''
       [(''fr'', ''formal''), (''en'', ''source''), (''es'', ''Don't translate'')]
       [''a.md'', ''missing.md'']
       \<lparr>files = [''extracted_md/translated/fr/a.md'' \<mapsto> ''Salut'',
                 ''extracted_md/translated/en/a.md'' \<mapsto> ''Hello''],
        calls = [scenarioRequest ''fr'']\<rparr>
     = Some ([[SkippedExists, SkippedExists, SkippedNoTranslate], []],
             \<lparr>files = [''extracted_md/translated/fr/a.md'' \<mapsto> ''Salut'',
                       ''extracted_md/translated/en/a.md'' \<mapsto> ''Hello''],
              calls = [scenarioRequest ''fr'']\<rparr>)"
    by (simp add: scenario_defs)
  ultimately show ?thesis by blast
qed

section \<open>The image path rewriter\<close>

text \<open>Lower-casing leaves the characters outside the ASCII letters alone.\<close>

lemma toLowerAscii_fixed:
  "toLowerAscii CHR ''<'' = CHR ''<''" "toLowerAscii CHR ''>'' = CHR ''>''"
  "toLowerAscii DQ = DQ" "toLowerAscii CHR ''.'' = CHR ''.''"
  "toLowerAscii CHR ''/'' = CHR ''/''" "toLowerAscii CHR ''e'' = CHR ''e''"
  "toLowerAscii CHR ''n'' = CHR ''n''"
  by (simp_all add: toLowerAscii_def)

lemma toLowerAscii_cases:
  "toLowerAscii c = c \<or> toLowerAscii c \<in> set ''abcdefghijklmnopqrstuvwxyz''"
proof (cases "map_of (zip ''ABCDEFGHIJKLMNOPQRSTUVWXYZ'' ''abcdefghijklmnopqrstuvwxyz'') c")
  case None
  then have "toLowerAscii c = c" by (simp only: toLowerAscii_def option.case)
  then show ?thesis ..
next
  case (Some l)
  then have "(c, l) \<in> set (zip ''ABCDEFGHIJKLMNOPQRSTUVWXYZ'' ''abcdefghijklmnopqrstuvwxyz'')"
    by (rule map_of_SomeD)
  then have "l \<in> set ''abcdefghijklmnopqrstuvwxyz''" by (rule set_zip_rightD)
  moreover from Some have "toLowerAscii c = l" by (simp only: toLowerAscii_def option.case)
  ultimately show ?thesis by blast
qed

lemma toLowerAscii_lt: "toLowerAscii c = CHR ''<'' \<Longrightarrow> c = CHR ''<''"
  using toLowerAscii_cases [of c] by auto


text \<open>The characters of a tag or keyword as written.\<close>

lemma ignoreCase_not_member:
  assumes "matchesIgnoreCase keyword s" and "toLowerAscii x = x" and "x \<notin> set keyword"
  shows "x \<notin> set s"
proof
  assume "x \<in> set s"
  then have "toLowerAscii x \<in> set (map toLowerAscii s)" by (simp only: set_map) blast
  with assms show False by (simp add: matchesIgnoreCase_def)
qed

lemma img_tag_chars:
  assumes "matchesIgnoreCase ''<img'' t"
  shows "length t = 4" and "\<exists>t'. t = CHR ''<'' # t' \<and> CHR ''<'' \<notin> set t'"
    and "CHR ''>'' \<notin> set t" and "DQ \<notin> set t"
proof -
  from assms have m: "map toLowerAscii t = ''<img''" by (simp add: matchesIgnoreCase_def)
  have "length (map toLowerAscii t) = 4" by (simp only: m) simp
  then show "length t = 4" by simp
  show "CHR ''>'' \<notin> set t"
    by (rule ignoreCase_not_member [OF assms]) (simp_all add: toLowerAscii_fixed)
  show "DQ \<notin> set t"
    by (rule ignoreCase_not_member [OF assms]) (simp_all add: toLowerAscii_fixed)
  from m obtain a t' where t: "t = a # t'" "toLowerAscii a = CHR ''<''" "map toLowerAscii t' = ''img''"
    by (cases t) auto
  from t(3) have "matchesIgnoreCase ''img'' t'" by (simp add: matchesIgnoreCase_def)
  then have "CHR ''<'' \<notin> set t'"
    by (rule ignoreCase_not_member) (simp_all add: toLowerAscii_fixed)
  with t toLowerAscii_lt show "\<exists>t'. t = CHR ''<'' # t' \<and> CHR ''<'' \<notin> set t'" by blast
qed

lemma src_keyword_chars:
  assumes "matchesIgnoreCase ''src='' k"
  shows "length k = 4" and "CHR ''<'' \<notin> set k" and "CHR ''>'' \<notin> set k" and "DQ \<notin> set k"
    and "\<exists>a k'. k = a # k' \<and> toLowerAscii a = CHR ''s''"
proof -
  from assms have m: "map toLowerAscii k = ''src=''" by (simp add: matchesIgnoreCase_def)
  have "length (map toLowerAscii k) = 4" by (simp only: m) simp
  then show "length k = 4" by simp
  show "CHR ''<'' \<notin> set k"
    by (rule ignoreCase_not_member [OF assms]) (simp_all add: toLowerAscii_fixed)
  show "CHR ''>'' \<notin> set k"
    by (rule ignoreCase_not_member [OF assms]) (simp_all add: toLowerAscii_fixed)
  show "DQ \<notin> set k"
    by (rule ignoreCase_not_member [OF assms]) (simp_all add: toLowerAscii_fixed)
  from m show "\<exists>a k'. k = a # k' \<and> toLowerAscii a = CHR ''s''" by (cases k) auto
qed

text \<open>What the pieces of the matcher accept.\<close>

lemma srcValue_Some:
  "srcValue xs = Some v \<longleftrightarrow> (\<exists>rest. xs = v @ DQ # rest \<and> v \<noteq> [] \<and> DQ \<notin> set v)"
proof
  assume "srcValue xs = Some v"
  then have v: "v = takeWhile (\<lambda>c. c \<noteq> DQ) xs" "v \<noteq> []"
    and d: "dropWhile (\<lambda>c. c \<noteq> DQ) xs \<noteq> []"
    by (auto simp: srcValue_def Let_def split: if_splits)
  from d have "hd (dropWhile (\<lambda>c. c \<noteq> DQ) xs) = DQ"
    using hd_dropWhile [of "\<lambda>c. c \<noteq> DQ" xs] by simp
  with d obtain rest where "dropWhile (\<lambda>c. c \<noteq> DQ) xs = DQ # rest"
    by (cases "dropWhile (\<lambda>c. c \<noteq> DQ) xs") auto
  with v(1) have "xs = v @ DQ # rest"
    using takeWhile_dropWhile_id [of "\<lambda>c. c \<noteq> DQ" xs] by simp
  moreover from v(1) have "DQ \<notin> set v" by (auto dest: set_takeWhileD)
  ultimately show "\<exists>rest. xs = v @ DQ # rest \<and> v \<noteq> [] \<and> DQ \<notin> set v"
    using v(2) by blast
next
  assume "\<exists>rest. xs = v @ DQ # rest \<and> v \<noteq> [] \<and> DQ \<notin> set v"
  then obtain rest where xs: "xs = v @ DQ # rest" and v: "v \<noteq> []" "DQ \<notin> set v" by blast
  from v(2) have "\<And>x. x \<in> set v \<Longrightarrow> x \<noteq> DQ" by auto
  then have "takeWhile (\<lambda>c. c \<noteq> DQ) xs = v" "dropWhile (\<lambda>c. c \<noteq> DQ) xs = DQ # rest"
    by (simp_all add: xs takeWhile_append2 dropWhile_append2)
  with v(1) show "srcValue xs = Some v" by (simp add: srcValue_def)
qed

lemma srcValue_None:
  "srcValue xs = None \<longleftrightarrow> (xs = [] \<or> hd xs = DQ \<or> DQ \<notin> set xs)"
  by (auto simp: srcValue_def Let_def takeWhile_eq_Nil_iff)

lemma srcHere_Some:
  assumes "srcHere xs = Some (kw, v)"
  shows "\<exists>k Z. xs = k @ DQ # Z \<and> kw = k @ [DQ] \<and> matchesIgnoreCase ''src='' k
           \<and> srcValue Z = Some v"
  using assms
proof (cases xs rule: srcHere.cases)
  case (1 a b c d q rest)
  with assms have "matchesIgnoreCase ''src='' [a, b, c, d]" "q = DQ" "srcValue rest = Some v"
    "kw = [a, b, c, d] @ [DQ]"
    by (auto split: if_splits option.splits)
  with 1 have "xs = [a, b, c, d] @ DQ # rest" by simp
  with \<open>matchesIgnoreCase ''src='' [a, b, c, d]\<close> \<open>srcValue rest = Some v\<close>
    \<open>kw = [a, b, c, d] @ [DQ]\<close> show ?thesis by blast
qed simp_all

lemma first_quote_unique:
  "u @ DQ # Z = k @ DQ # Z' \<Longrightarrow> DQ \<notin> set k \<Longrightarrow> DQ \<notin> set u \<Longrightarrow> u = k \<and> Z = Z'"
proof (induction u arbitrary: k)
  case Nil
  then show ?case by (cases k) auto
next
  case (Cons x u)
  show ?case
  proof (cases k)
    case Nil
    with Cons.prems show ?thesis by auto
  next
    case (Cons y k')
    with Cons.prems Cons.IH [of k'] show ?thesis by auto
  qed
qed

text \<open>The keyword can only end at the first \<open>"\<close>.\<close>

lemma srcHere_at_quote:
  assumes "DQ \<notin> set u"
  shows "srcHere (u @ DQ # Z) =
     (if matchesIgnoreCase ''src='' u then map_option (\<lambda>v. (u @ [DQ], v)) (srcValue Z) else None)"
proof (cases "srcHere (u @ DQ # Z)")
  case None
  show ?thesis
  proof (cases "matchesIgnoreCase ''src='' u")
    case True
    from src_keyword_chars(1) [OF True] obtain a b c d where u: "u = [a, b, c, d]"
      by (auto simp: numeral_eq_Suc length_Suc_conv)
    with None True show ?thesis by (auto split: option.splits)
  next
    case False
    with None show ?thesis by simp
  qed
next
  case (Some r)
  obtain kw v where r: "r = (kw, v)" by (cases r)
  from srcHere_Some [OF Some [unfolded r]] obtain k Z' where
    e: "u @ DQ # Z = k @ DQ # Z'" and kw: "kw = k @ [DQ]" and k: "matchesIgnoreCase ''src='' k"
    and sv: "srcValue Z' = Some v"
    by blast
  from e src_keyword_chars(4) [OF k] assms have "u = k \<and> Z = Z'"
    by (rule first_quote_unique)
  with Some r kw k sv show ?thesis by simp
qed

lemma srcHere_Cons:
  assumes "toLowerAscii x \<noteq> CHR ''s''"
  shows "srcHere (x # xs) = None"
proof (cases "srcHere (x # xs)")
  case None
  then show ?thesis .
next
  case (Some r)
  obtain kw v where "r = (kw, v)" by (cases r)
  with Some have "srcHere (x # xs) = Some (kw, v)" by simp
  from srcHere_Some [OF this] obtain k Z where
    "x # xs = k @ DQ # Z" "matchesIgnoreCase ''src='' k" by blast
  with src_keyword_chars(5) [OF this(2)] assms show ?thesis by auto
qed

lemma attrScan_None_Cons:
  "attrScan (c # cs) = None \<longleftrightarrow> srcHere (c # cs) = None \<and> (c = CHR ''>'' \<or> attrScan cs = None)"
  by (auto split: option.splits)

lemma attrScan_Some_Cons:
  "attrScan (c # cs) = Some r \<longleftrightarrow>
     (c \<noteq> CHR ''>'' \<and> (\<exists>as kw v. attrScan cs = Some (as, kw, v) \<and> r = (c # as, kw, v)))
     \<or> ((c = CHR ''>'' \<or> attrScan cs = None)
         \<and> (\<exists>kw v. srcHere (c # cs) = Some (kw, v) \<and> r = ([], kw, v)))"
  by (auto split: option.splits)

text \<open>From here on the recursion of \<open>attrScan\<close> is used through the two lemmas above.\<close>

declare attrScan.simps(2) [simp del]

text \<open>No keyword with a value starts inside a run free of \<open>>\<close>.\<close>

lemma attrScan_None_split:
  "attrScan (p @ q) = None \<Longrightarrow> CHR ''>'' \<notin> set p \<Longrightarrow> srcHere q = None"
proof (induction p)
  case Nil
  then show ?case by (cases q) (auto simp: attrScan_None_Cons)
next
  case (Cons x p)
  then show ?case by (auto simp: attrScan_None_Cons)
qed

lemma attrScan_skip:
  assumes "CHR ''>'' \<notin> set p" and "\<forall>x \<in> set p. toLowerAscii x \<noteq> CHR ''s''"
  shows "attrScan (p @ q) = None \<longleftrightarrow> attrScan q = None"
  using assms
proof (induction p)
  case Nil
  show ?case by simp
next
  case (Cons x p)
  from Cons.prems srcHere_Cons [of x "p @ q"] have "srcHere (x # p @ q) = None" by simp
  with Cons show ?case by (auto simp: attrScan_None_Cons)
qed

lemma attrScan_Some_intro:
  assumes "CHR ''>'' \<notin> set attrs" and "srcHere q = Some (kw, v)" and "attrScan (tl q) = None"
  shows "attrScan (attrs @ q) = Some (attrs, kw, v)"
  using assms(1)
proof (induction attrs)
  case Nil
  from assms(2) obtain c cs where q: "q = c # cs" by (cases q) auto
  with assms(2) srcHere_Cons [of c cs] have "toLowerAscii c = CHR ''s''" by auto
  then have "c \<noteq> CHR ''>''" by (auto simp: toLowerAscii_fixed)
  with q assms(2,3) show ?case by (simp add: attrScan_Some_Cons)
next
  case (Cons a attrs)
  then show ?case by (auto simp: attrScan_Some_Cons)
qed

lemma attrScan_Some_elim:
  assumes "attrScan xs = Some (attrs, kw, v)"
  shows "\<exists>q. xs = attrs @ q \<and> CHR ''>'' \<notin> set attrs \<and> srcHere q = Some (kw, v)
           \<and> attrScan (tl q) = None"
  using assms
proof (induction xs arbitrary: attrs)
  case Nil
  then show ?case by simp
next
  case (Cons c cs)
  from Cons.prems consider
    (later) as where "c \<noteq> CHR ''>''" "attrScan cs = Some (as, kw, v)" "attrs = c # as"
    | (here) "c = CHR ''>'' \<or> attrScan cs = None" "srcHere (c # cs) = Some (kw, v)" "attrs = []"
    by (auto simp: attrScan_Some_Cons)
  then show ?case
  proof cases
    case later
    from Cons.IH [OF later(2)] obtain q where
      "cs = as @ q" "CHR ''>'' \<notin> set as" "srcHere q = Some (kw, v)" "attrScan (tl q) = None"
      by blast
    with later show ?thesis by simp
  next
    case here
    from here(2) srcHere_Cons [of c cs] have "toLowerAscii c = CHR ''s''" by auto
    then have "c \<noteq> CHR ''>''" by (auto simp: toLowerAscii_fixed)
    with here show ?thesis by simp
  qed
qed

lemma matchImg_Some_elim:
  assumes "matchImg xs = Some (tag, attrs, kw, v)"
  shows "\<exists>a as rest. xs = tag @ a # rest \<and> attrs = a # as \<and> matchesIgnoreCase ''<img'' tag
           \<and> a \<noteq> CHR ''>'' \<and> attrScan rest = Some (as, kw, v)"
  using assms
proof (cases xs rule: matchImg.cases)
  case (1 a b c d x rest)
  with assms show ?thesis by (auto split: if_splits option.splits)
qed simp_all

lemma matchImg_tag:
  assumes "matchesIgnoreCase ''<img'' tag"
  shows "matchImg (tag @ ys) =
     (case ys of
        [] \<Rightarrow> None
      | a # rest \<Rightarrow>
          if a = CHR ''>'' then None
          else (case attrScan rest of
                  Some (as, kw, v) \<Rightarrow> Some (tag, a # as, kw, v)
                | None \<Rightarrow> None))"
proof -
  from img_tag_chars(1) [OF assms] obtain a b c d where tag: "tag = [a, b, c, d]"
    by (auto simp: numeral_eq_Suc length_Suc_conv)
  with assms show ?thesis by (cases ys) (simp_all split: option.splits)
qed

lemma matchImg_needs_tag:
  assumes "matchImg xs \<noteq> None"
  shows "\<exists>tag ys. xs = tag @ ys \<and> matchesIgnoreCase ''<img'' tag"
proof -
  from assms obtain tag attrs kw v where "matchImg xs = Some (tag, attrs, kw, v)" by auto
  from matchImg_Some_elim [OF this] show ?thesis by blast
qed

text \<open>A match, taken apart.\<close>

lemma matchImg_decompose:
  assumes "matchImg xs = Some (tag, attrs, kw, v)"
  shows "\<exists>t' k rest. xs = tag @ attrs @ kw @ v @ DQ # rest
           \<and> tag = CHR ''<'' # t' \<and> CHR ''<'' \<notin> set t' \<and> matchesIgnoreCase ''<img'' tag
           \<and> attrs \<noteq> [] \<and> CHR ''>'' \<notin> set attrs
           \<and> kw = k @ [DQ] \<and> matchesIgnoreCase ''src='' k
           \<and> v \<noteq> [] \<and> DQ \<notin> set v
           \<and> attrScan (tl kw @ v @ DQ # rest) = None"
proof -
  from matchImg_Some_elim [OF assms] obtain a as restA where
    xs: "xs = tag @ a # restA" and attrs: "attrs = a # as" and tag: "matchesIgnoreCase ''<img'' tag"
    and a: "a \<noteq> CHR ''>''" and scan: "attrScan restA = Some (as, kw, v)"
    by blast
  from attrScan_Some_elim [OF scan] obtain q where
    restA: "restA = as @ q" and as: "CHR ''>'' \<notin> set as" and here: "srcHere q = Some (kw, v)"
    and later: "attrScan (tl q) = None"
    by blast
  from srcHere_Some [OF here] obtain k Z where
    q: "q = k @ DQ # Z" and kw: "kw = k @ [DQ]" and k: "matchesIgnoreCase ''src='' k"
    and sv: "srcValue Z = Some v"
    by blast
  from sv obtain rest where Z: "Z = v @ DQ # rest" and v: "v \<noteq> []" "DQ \<notin> set v"
    by (auto simp: srcValue_Some)
  from img_tag_chars(2) [OF tag] obtain t' where t': "tag = CHR ''<'' # t'" "CHR ''<'' \<notin> set t'"
    by blast
  have "xs = tag @ attrs @ kw @ v @ DQ # rest"
    by (simp add: xs attrs restA q kw Z)
  moreover from later q kw Z have "attrScan (tl kw @ v @ DQ # rest) = None"
    by (cases k) simp_all
  ultimately show ?thesis
    using t' tag attrs a as kw k v by auto
qed

lemma adjustHtmlImagePaths_None:
  "matchImg (c # cs) = None \<Longrightarrow> adjustHtmlImagePaths (c # cs) = c # adjustHtmlImagePaths cs"
  by simp

lemma adjustHtmlImagePaths_Some:
  assumes "matchImg xs = Some (tag, attrs, kw, v)" and "xs = tag @ attrs @ kw @ v @ DQ # rest"
  shows "adjustHtmlImagePaths xs
     = imgReplacement (tag @ attrs @ kw @ v @ [DQ]) attrs v @ adjustHtmlImagePaths rest"
proof -
  from matchImg_decompose [OF assms(1)] obtain t' where tag: "tag = CHR ''<'' # t'" by blast
  let ?cs = "t' @ attrs @ kw @ v @ DQ # rest"
  from assms(2) tag have xs: "xs = CHR ''<'' # ?cs" by simp
  have "drop (length tag + length attrs + length kw + length v) ?cs = rest"
    by (simp add: tag)
  with assms(1) show ?thesis
    unfolding xs by simp
qed

lemma adjustHtmlImagePaths_not_tag:
  assumes "c \<noteq> CHR ''<''"
  shows "adjustHtmlImagePaths (c # cs) = c # adjustHtmlImagePaths cs"
proof -
  have "matchImg (c # cs) = None"
  proof (rule ccontr)
    assume "matchImg (c # cs) \<noteq> None"
    from matchImg_needs_tag [OF this] obtain tag ys where
      "c # cs = tag @ ys" "matchesIgnoreCase ''<img'' tag" by blast
    with img_tag_chars(2) [OF this(2)] assms show False by auto
  qed
  then show ?thesis by simp
qed

lemma imgReplacement_shape:
  "\<exists>body. imgReplacement (CHR ''<'' # m @ [DQ]) attrs v = CHR ''<'' # body @ [DQ]"
  by (auto simp: imgReplacement_def Let_def)

lemma adjustHtmlImagePaths_hd:
  "\<exists>ys. adjustHtmlImagePaths (c # cs) = c # ys"
proof (cases "matchImg (c # cs)")
  case None
  then show ?thesis by simp
next
  case (Some m)
  obtain tag attrs kw v where m: "m = (tag, attrs, kw, v)" by (cases m)
  from matchImg_decompose [OF Some [unfolded m]] obtain t' rest where
    xs: "c # cs = tag @ attrs @ kw @ v @ DQ # rest" and tag: "tag = CHR ''<'' # t'"
    by blast
  from imgReplacement_shape [of "t' @ attrs @ kw @ v" attrs v] obtain body where
    "imgReplacement (tag @ attrs @ kw @ v @ [DQ]) attrs v = CHR ''<'' # body @ [DQ]"
    by (auto simp: tag)
  with adjustHtmlImagePaths_Some [OF Some [unfolded m] xs] xs tag show ?thesis by simp
qed

lemma adjustHtmlImagePaths_Nil_iff: "adjustHtmlImagePaths xs = [] \<longleftrightarrow> xs = []"
  using adjustHtmlImagePaths_hd by (cases xs) (simp, metis list.distinct(1))

lemma adjustHtmlImagePaths_quote:
  "DQ \<in> set (adjustHtmlImagePaths xs) \<longleftrightarrow> DQ \<in> set xs"
proof (induction "length xs" arbitrary: xs rule: less_induct)
  case less
  show ?case
  proof (cases xs)
    case Nil
    then show ?thesis by simp
  next
    case (Cons c cs)
    show ?thesis
    proof (cases "matchImg xs")
      case None
      with Cons less.hyps [of cs] show ?thesis by simp
    next
      case (Some m)
      obtain tag attrs kw v where m: "m = (tag, attrs, kw, v)" by (cases m)
      from matchImg_decompose [OF Some [unfolded m]] obtain t' rest where
        xs: "xs = tag @ attrs @ kw @ v @ DQ # rest" and tag: "tag = CHR ''<'' # t'"
        by blast
      from imgReplacement_shape [of "t' @ attrs @ kw @ v" attrs v] obtain body where
        "imgReplacement (tag @ attrs @ kw @ v @ [DQ]) attrs v = CHR ''<'' # body @ [DQ]"
        by (auto simp: tag)
      with adjustHtmlImagePaths_Some [OF Some [unfolded m] xs]
      have "DQ \<in> set (adjustHtmlImagePaths xs)" by simp
      moreover from xs have "DQ \<in> set xs" by simp
      ultimately show ?thesis by simp
    qed
  qed
qed

text \<open>Text without \<open><\<close> is copied.\<close>

lemma matchImg_hd:
  assumes "c \<noteq> CHR ''<''"
  shows "matchImg (c # cs) = None"
proof (rule ccontr)
  assume "matchImg (c # cs) \<noteq> None"
  from matchImg_needs_tag [OF this] obtain tag ys where
    "c # cs = tag @ ys" "matchesIgnoreCase ''<img'' tag" by blast
  with img_tag_chars(2) [OF this(2)] assms show False by auto
qed

lemma adjustHtmlImagePaths_prefix:
  "CHR ''<'' \<notin> set u \<Longrightarrow> adjustHtmlImagePaths (u @ Z) = u @ adjustHtmlImagePaths Z"
proof (induction u)
  case Nil
  show ?case by simp
next
  case (Cons x u)
  then have "x \<noteq> CHR ''<''" by auto
  from adjustHtmlImagePaths_not_tag [OF this, of "u @ Z"] Cons show ?case by simp
qed

lemma adjustHtmlImagePaths_prefix_inv:
  "adjustHtmlImagePaths xs = u @ Y \<Longrightarrow> CHR ''<'' \<notin> set u \<Longrightarrow>
     \<exists>Z. xs = u @ Z \<and> Y = adjustHtmlImagePaths Z"
proof (induction u arbitrary: xs)
  case Nil
  then show ?case by simp
next
  case (Cons x u)
  from Cons.prems(1) have "xs \<noteq> []" by auto
  then obtain c cs where xs: "xs = c # cs" by (cases xs) auto
  from adjustHtmlImagePaths_hd [of c cs] Cons.prems(1) xs have c: "c = x" by auto
  with Cons.prems(2) have "c \<noteq> CHR ''<''" by auto
  then have "adjustHtmlImagePaths (c # cs) = c # adjustHtmlImagePaths cs"
    by (rule adjustHtmlImagePaths_not_tag)
  with Cons.prems(1) xs c have "adjustHtmlImagePaths cs = u @ Y" by simp
  from Cons.IH [OF this] Cons.prems(2) xs c show ?case by auto
qed

lemma srcValue_adjustHtmlImagePaths:
  "srcValue (adjustHtmlImagePaths Z) = None \<longleftrightarrow> srcValue Z = None"
proof (cases Z)
  case Nil
  then show ?thesis by simp
next
  case (Cons c cs)
  from adjustHtmlImagePaths_hd [of c cs] obtain ys where "adjustHtmlImagePaths (c # cs) = c # ys"
    by blast
  with Cons adjustHtmlImagePaths_quote [of Z] show ?thesis
    by (simp add: srcValue_None del: adjustHtmlImagePaths.simps)
qed

lemma srcHere_adjustHtmlImagePaths:
  assumes "srcHere xs = None"
  shows "srcHere (adjustHtmlImagePaths xs) = None"
proof (cases "srcHere (adjustHtmlImagePaths xs)")
  case None
  then show ?thesis .
next
  case (Some r)
  obtain kw v where "r = (kw, v)" by (cases r)
  with Some have "srcHere (adjustHtmlImagePaths xs) = Some (kw, v)" by simp
  from srcHere_Some [OF this] obtain k Y where
    out: "adjustHtmlImagePaths xs = k @ DQ # Y" and k: "matchesIgnoreCase ''src='' k"
    and sv: "srcValue Y = Some v"
    by blast
  from out have "adjustHtmlImagePaths xs = (k @ [DQ]) @ Y" by simp
  moreover from src_keyword_chars(2) [OF k] have "CHR ''<'' \<notin> set (k @ [DQ])" by simp
  ultimately obtain Z where Z: "xs = (k @ [DQ]) @ Z" "Y = adjustHtmlImagePaths Z"
    using adjustHtmlImagePaths_prefix_inv by blast
  from sv Z(2) srcValue_adjustHtmlImagePaths [of Z] have "srcValue Z \<noteq> None" by auto
  with srcHere_at_quote [OF src_keyword_chars(4) [OF k], of Z] k Z(1) assms
  show ?thesis by auto
qed

lemma matchImg_attrScan:
  assumes "matchImg xs = Some m"
  shows "attrScan (tl xs) \<noteq> None"
proof
  assume none: "attrScan (tl xs) = None"
  obtain tag attrs kw v where m: "m = (tag, attrs, kw, v)" by (cases m)
  from matchImg_decompose [OF assms [unfolded m]] obtain t' k rest where
    xs: "xs = tag @ attrs @ kw @ v @ DQ # rest" and tag: "tag = CHR ''<'' # t'"
      "matchesIgnoreCase ''<img'' tag"
    and attrs: "CHR ''>'' \<notin> set attrs" and kw: "kw = k @ [DQ]" "matchesIgnoreCase ''src='' k"
    and v: "v \<noteq> []" "DQ \<notin> set v"
    by blast
  from xs tag(1) have "tl xs = (t' @ attrs) @ (kw @ v @ DQ # rest)" by simp
  moreover from img_tag_chars(3) [OF tag(2)] tag(1) attrs have "CHR ''>'' \<notin> set (t' @ attrs)"
    by simp
  ultimately have "srcHere (kw @ v @ DQ # rest) = None"
    using none attrScan_None_split by metis
  moreover from v have "srcValue (v @ DQ # rest) = Some v" by (auto simp: srcValue_Some)
  ultimately show False
    using srcHere_at_quote [OF src_keyword_chars(4) [OF kw(2)], of "v @ DQ # rest"] kw by simp
qed

lemma attrScan_adjustHtmlImagePaths:
  "attrScan xs = None \<Longrightarrow> attrScan (adjustHtmlImagePaths xs) = None"
proof (induction xs)
  case Nil
  then show ?case by simp
next
  case (Cons c cs)
  from Cons.prems have here: "srcHere (c # cs) = None" and later: "c = CHR ''>'' \<or> attrScan cs = None"
    by (simp_all add: attrScan_None_Cons)
  have "matchImg (c # cs) = None"
  proof (cases "c = CHR ''>''")
    case True
    then have "c \<noteq> CHR ''<''" by simp
    then show ?thesis by (rule matchImg_hd)
  next
    case False
    with later have "attrScan (tl (c # cs)) = None" by simp
    with matchImg_attrScan [of "c # cs"] show ?thesis by (cases "matchImg (c # cs)") auto
  qed
  then have out: "adjustHtmlImagePaths (c # cs) = c # adjustHtmlImagePaths cs" by simp
  from srcHere_adjustHtmlImagePaths [OF here] out
  have "srcHere (c # adjustHtmlImagePaths cs) = None" by simp
  moreover from later Cons.IH have "c = CHR ''>'' \<or> attrScan (adjustHtmlImagePaths cs) = None"
    by auto
  ultimately show ?case by (simp add: out attrScan_None_Cons del: adjustHtmlImagePaths.simps)
qed

text \<open>Rewriting what follows a value brings no keyword with a value into reach.\<close>

lemma src_keyword_tail:
  assumes "matchesIgnoreCase ''src='' k"
  shows "\<exists>a k'. k = a # k' \<and> CHR ''>'' \<notin> set (k' @ [DQ])
           \<and> (\<forall>x \<in> set (k' @ [DQ]). toLowerAscii x \<noteq> CHR ''s'')"
proof -
  from assms have m: "map toLowerAscii k = ''src=''" by (simp add: matchesIgnoreCase_def)
  then obtain a k' where k: "k = a # k'" "map toLowerAscii k' = ''rc=''" by (cases k) auto
  have "toLowerAscii x \<noteq> CHR ''s''" if "x \<in> set k'" for x
  proof -
    from that have "toLowerAscii x \<in> set (map toLowerAscii k')" by (simp only: set_map) blast
    with k(2) show ?thesis by auto
  qed
  with src_keyword_chars(3) [OF assms] k(1) show ?thesis
    by (auto simp: toLowerAscii_fixed)
qed

lemma attrScan_after_value:
  assumes "DQ \<notin> set v" and "attrScan (v @ DQ # rest) = None"
  shows "attrScan (v @ DQ # adjustHtmlImagePaths rest) = None"
  using assms
proof (induction v)
  case Nil
  then have "attrScan rest = None" by (simp add: attrScan_None_Cons)
  then have "attrScan (adjustHtmlImagePaths rest) = None" by (rule attrScan_adjustHtmlImagePaths)
  moreover have "srcHere (DQ # adjustHtmlImagePaths rest) = None"
    by (rule srcHere_Cons) (simp add: toLowerAscii_fixed)
  ultimately show ?case by (simp add: attrScan_None_Cons)
next
  case (Cons x v)
  from Cons.prems have here: "srcHere ((x # v) @ DQ # rest) = None"
    and later: "x = CHR ''>'' \<or> attrScan (v @ DQ # rest) = None"
    by (simp_all add: attrScan_None_Cons)
  from Cons.prems(1) have nq: "DQ \<notin> set (x # v)" by simp
  from here srcHere_at_quote [OF nq, of rest]
  have "\<not> matchesIgnoreCase ''src='' (x # v) \<or> srcValue rest = None"
    by (auto split: if_splits)
  then have "\<not> matchesIgnoreCase ''src='' (x # v) \<or> srcValue (adjustHtmlImagePaths rest) = None"
    by (simp add: srcValue_adjustHtmlImagePaths)
  with srcHere_at_quote [OF nq, of "adjustHtmlImagePaths rest"]
  have "srcHere ((x # v) @ DQ # adjustHtmlImagePaths rest) = None" by auto
  moreover from later Cons.IH Cons.prems(1)
  have "x = CHR ''>'' \<or> attrScan (v @ DQ # adjustHtmlImagePaths rest) = None" by auto
  ultimately show ?case by (simp add: attrScan_None_Cons)
qed

lemma attrScan_after_keyword:
  assumes k: "matchesIgnoreCase ''src='' k" and k': "matchesIgnoreCase ''src='' k'"
    and ins: "ins \<in> {[], ''../en/'', ''../en''}" and v: "DQ \<notin> set v"
    and none: "attrScan (tl (k @ [DQ]) @ v @ DQ # rest) = None"
  shows "attrScan (tl (k' @ [DQ]) @ ins @ v @ DQ # adjustHtmlImagePaths rest) = None"
proof -
  from src_keyword_tail [OF k] obtain a t where
    t: "k = a # t" "CHR ''>'' \<notin> set (t @ [DQ])" "\<forall>x \<in> set (t @ [DQ]). toLowerAscii x \<noteq> CHR ''s''"
    by blast
  from src_keyword_tail [OF k'] obtain a' t' where
    t': "k' = a' # t'" "CHR ''>'' \<notin> set (t' @ [DQ])"
      "\<forall>x \<in> set (t' @ [DQ]). toLowerAscii x \<noteq> CHR ''s''"
    by blast
  from none t(1) have "attrScan ((t @ [DQ]) @ v @ DQ # rest) = None" by simp
  with attrScan_skip [OF t(2,3)] have "attrScan (v @ DQ # rest) = None" by blast
  from attrScan_after_value [OF v this]
  have inner: "attrScan (v @ DQ # adjustHtmlImagePaths rest) = None" .
  from ins have "CHR ''>'' \<notin> set ins" "\<forall>x \<in> set ins. toLowerAscii x \<noteq> CHR ''s''"
    by (auto simp: toLowerAscii_fixed)
  from attrScan_skip [OF this] inner
  have "attrScan (ins @ v @ DQ # adjustHtmlImagePaths rest) = None" by blast
  with attrScan_skip [OF t'(2,3)]
  have "attrScan ((t' @ [DQ]) @ ins @ v @ DQ # adjustHtmlImagePaths rest) = None" by blast
  with t'(1) show ?thesis by simp
qed

text \<open>Rewriting the text after the first character brings no match to the head.\<close>

lemma matchImg_head_stable:
  assumes "matchImg (c # cs) = None"
  shows "matchImg (c # adjustHtmlImagePaths cs) = None"
proof (rule ccontr)
  assume "matchImg (c # adjustHtmlImagePaths cs) \<noteq> None"
  then obtain tag attrs kw v where "matchImg (c # adjustHtmlImagePaths cs) = Some (tag, attrs, kw, v)"
    by auto
  from matchImg_Some_elim [OF this] obtain a as restA where
    out: "c # adjustHtmlImagePaths cs = tag @ a # restA" and tag: "matchesIgnoreCase ''<img'' tag"
    and a: "a \<noteq> CHR ''>''" and scan: "attrScan restA = Some (as, kw, v)"
    by blast
  from img_tag_chars(2) [OF tag] obtain t' where t': "tag = CHR ''<'' # t'" "CHR ''<'' \<notin> set t'"
    by blast
  with out have c: "c = CHR ''<''" and "adjustHtmlImagePaths cs = t' @ a # restA" by simp_all
  from adjustHtmlImagePaths_prefix_inv [OF this(2) t'(2)] obtain Z where
    cs: "cs = t' @ Z" and Z: "a # restA = adjustHtmlImagePaths Z"
    by blast
  from Z have "Z \<noteq> []" by auto
  then obtain z Z' where Z': "Z = z # Z'" by (cases Z) auto
  from adjustHtmlImagePaths_hd [of z Z'] Z Z' have z: "z = a" by auto
  from assms c cs t'(1) Z' have "matchImg (tag @ z # Z') = None" by simp
  with matchImg_tag [OF tag, of "z # Z'"] z a have none: "attrScan Z' = None"
    by (auto split: option.splits)
  have "matchImg (z # Z') = None"
  proof (cases "matchImg (z # Z')")
    case None
    then show ?thesis .
  next
    case (Some m)
    from matchImg_attrScan [OF Some] none show ?thesis by simp
  qed
  then have "adjustHtmlImagePaths (z # Z') = z # adjustHtmlImagePaths Z'" by simp
  with Z Z' have "restA = adjustHtmlImagePaths Z'" by simp
  with attrScan_adjustHtmlImagePaths [OF none] scan show False by simp
qed

text \<open>A match stays the match when its tag and keyword are rewritten in another case, its
  value gets a prefix, and the text after it is rewritten.\<close>

lemma matchImg_stable:
  assumes m: "matchImg xs = Some (tag, attrs, k @ [DQ], v)"
    and xs: "xs = tag @ attrs @ (k @ [DQ]) @ v @ DQ # rest"
    and tag': "matchesIgnoreCase ''<img'' tag'" and k': "matchesIgnoreCase ''src='' k'"
    and ins: "ins \<in> {[], ''../en/'', ''../en''}"
  shows "matchImg (tag' @ attrs @ (k' @ [DQ]) @ (ins @ v) @ DQ # adjustHtmlImagePaths rest)
     = Some (tag', attrs, k' @ [DQ], ins @ v)"
proof -
  from matchImg_decompose [OF m] obtain k0 rest0 where
    xs0: "xs = tag @ attrs @ (k @ [DQ]) @ v @ DQ # rest0"
    and attrs: "attrs \<noteq> []" "CHR ''>'' \<notin> set attrs"
    and k: "k @ [DQ] = k0 @ [DQ]" "matchesIgnoreCase ''src='' k0"
    and v: "v \<noteq> []" "DQ \<notin> set v"
    and none0: "attrScan (tl (k @ [DQ]) @ v @ DQ # rest0) = None"
    by blast
  from xs xs0 have "rest0 = rest" by simp
  with none0 have none: "attrScan (tl (k @ [DQ]) @ v @ DQ # rest) = None" by simp
  from k have kk: "matchesIgnoreCase ''src='' k" by simp
  from attrs obtain a as where as: "attrs = a # as" "a \<noteq> CHR ''>''" "CHR ''>'' \<notin> set as"
    by (cases attrs) auto
  let ?q = "(k' @ [DQ]) @ (ins @ v) @ DQ # adjustHtmlImagePaths rest"
  from ins v have nonempty: "ins @ v \<noteq> []" "DQ \<notin> set (ins @ v)" by auto
  then have "srcValue ((ins @ v) @ DQ # adjustHtmlImagePaths rest) = Some (ins @ v)"
    by (auto simp: srcValue_Some)
  with srcHere_at_quote [OF src_keyword_chars(4) [OF k'], of "(ins @ v) @ DQ # adjustHtmlImagePaths rest"] k'
  have here: "srcHere ?q = Some (k' @ [DQ], ins @ v)" by simp
  from src_keyword_chars(1) [OF k'] have "k' \<noteq> []" by auto
  then have "tl ?q = tl (k' @ [DQ]) @ ins @ v @ DQ # adjustHtmlImagePaths rest" by simp
  with attrScan_after_keyword [OF kk k' ins v(2) none] have later: "attrScan (tl ?q) = None"
    by simp
  from attrScan_Some_intro [OF as(3) here later]
  have "attrScan (as @ ?q) = Some (as, k' @ [DQ], ins @ v)" .
  with matchImg_tag [OF tag', of "a # as @ ?q"] as(1,2) show ?thesis by simp
qed

text \<open>The callback returns the match as it is, or a match whose value is already
  rewritten.\<close>

lemma imgReplacement_cases:
  "(imgReplacement (tag @ attrs @ (k @ [DQ]) @ v @ [DQ]) attrs v
      = tag @ attrs @ (k @ [DQ]) @ ([] @ v) @ [DQ]
    \<and> imgReplacement (tag @ attrs @ (k @ [DQ]) @ ([] @ v) @ [DQ]) attrs ([] @ v)
      = tag @ attrs @ (k @ [DQ]) @ ([] @ v) @ [DQ])
   \<or> (\<exists>ins. ins \<in> {''../en/'', ''../en''}
         \<and> imgReplacement (tag @ attrs @ (k @ [DQ]) @ v @ [DQ]) attrs v
           = ''<img'' @ attrs @ (''src='' @ [DQ]) @ (ins @ v) @ [DQ]
         \<and> imgReplacement (''<img'' @ attrs @ (''src='' @ [DQ]) @ (ins @ v) @ [DQ]) attrs (ins @ v)
           = ''<img'' @ attrs @ (''src='' @ [DQ]) @ (ins @ v) @ [DQ])"
proof (cases "startsWith v ''http://'' \<or> startsWith v ''https://'' \<or> startsWith v ''data:''
    \<or> startsWith v ''../en/''")
  case True
  then show ?thesis by (simp add: imgReplacement_def)
next
  case False
  show ?thesis
  proof (cases "startsWith v ''/''")
    case True
    then obtain v' where "v = CHR ''/'' # v'" by (cases v) (auto simp: startsWith_def)
    then have "startsWith (''../en'' @ v) ''../en/''" by (simp add: startsWith_def)
    with True False have "imgReplacement (tag @ attrs @ (k @ [DQ]) @ v @ [DQ]) attrs v
           = ''<img'' @ attrs @ (''src='' @ [DQ]) @ (''../en'' @ v) @ [DQ]
         \<and> imgReplacement (''<img'' @ attrs @ (''src='' @ [DQ]) @ (''../en'' @ v) @ [DQ]) attrs (''../en'' @ v)
           = ''<img'' @ attrs @ (''src='' @ [DQ]) @ (''../en'' @ v) @ [DQ]"
      by (simp add: imgReplacement_def)
    then show ?thesis by blast
  next
    case slash: False
    have "startsWith (''../en/'' @ v) ''../en/''" by (simp add: startsWith_def)
    with slash False have "imgReplacement (tag @ attrs @ (k @ [DQ]) @ v @ [DQ]) attrs v
           = ''<img'' @ attrs @ (''src='' @ [DQ]) @ (''../en/'' @ v) @ [DQ]
         \<and> imgReplacement (''<img'' @ attrs @ (''src='' @ [DQ]) @ (''../en/'' @ v) @ [DQ]) attrs (''../en/'' @ v)
           = ''<img'' @ attrs @ (''src='' @ [DQ]) @ (''../en/'' @ v) @ [DQ]"
      by (simp add: imgReplacement_def)
    then show ?thesis by blast
  qed
qed

lemma keywords_lower_case:
  "matchesIgnoreCase ''<img'' ''<img''" "matchesIgnoreCase ''src='' ''src=''"
  by (simp_all add: matchesIgnoreCase_def toLowerAscii_def)

lemma rewrite_twice:
  "adjustHtmlImagePaths (adjustHtmlImagePaths xs) = adjustHtmlImagePaths xs"
proof (induction "length xs" arbitrary: xs rule: less_induct)
  case less
  show ?case
  proof (cases xs)
    case Nil
    then show ?thesis by simp
  next
    case (Cons c cs)
    show ?thesis
    proof (cases "matchImg (c # cs)")
      case None
      from matchImg_head_stable [OF None]
      have "adjustHtmlImagePaths (c # adjustHtmlImagePaths cs)
          = c # adjustHtmlImagePaths (adjustHtmlImagePaths cs)"
        by simp
      with None Cons less.hyps [of cs] show ?thesis by simp
    next
      case (Some m)
      obtain tag attrs kw v where m: "m = (tag, attrs, kw, v)" by (cases m)
      from matchImg_decompose [OF Some [unfolded m]] obtain k rest where
        parts: "c # cs = tag @ attrs @ kw @ v @ DQ # rest" and tag: "matchesIgnoreCase ''<img'' tag"
        and kw: "kw = k @ [DQ]" and k: "matchesIgnoreCase ''src='' k"
        by blast
      from Some m kw have match: "matchImg (c # cs) = Some (tag, attrs, k @ [DQ], v)" by simp
      from parts kw have parts': "c # cs = tag @ attrs @ (k @ [DQ]) @ v @ DQ # rest" by simp
      from parts Cons have "length rest < length xs" by simp
      then have ih: "adjustHtmlImagePaths (adjustHtmlImagePaths rest) = adjustHtmlImagePaths rest"
        by (rule less.hyps)
      from adjustHtmlImagePaths_Some [OF match parts']
      have out: "adjustHtmlImagePaths (c # cs)
          = imgReplacement (tag @ attrs @ (k @ [DQ]) @ v @ [DQ]) attrs v @ adjustHtmlImagePaths rest" .
      have again: "adjustHtmlImagePaths
            ((tag' @ attrs @ (k' @ [DQ]) @ (ins @ v) @ [DQ]) @ adjustHtmlImagePaths rest)
          = (tag' @ attrs @ (k' @ [DQ]) @ (ins @ v) @ [DQ]) @ adjustHtmlImagePaths rest"
        if "matchesIgnoreCase ''<img'' tag'" "matchesIgnoreCase ''src='' k'"
          "ins \<in> {[], ''../en/'', ''../en''}"
          "imgReplacement (tag' @ attrs @ (k' @ [DQ]) @ (ins @ v) @ [DQ]) attrs (ins @ v)
            = tag' @ attrs @ (k' @ [DQ]) @ (ins @ v) @ [DQ]"
        for tag' k' ins
      proof -
        let ?ys = "tag' @ attrs @ (k' @ [DQ]) @ (ins @ v) @ DQ # adjustHtmlImagePaths rest"
        from matchImg_stable [OF match parts' that(1,2,3)]
        have "matchImg ?ys = Some (tag', attrs, k' @ [DQ], ins @ v)" .
        from adjustHtmlImagePaths_Some [OF this refl] that(4) ih
        have "adjustHtmlImagePaths ?ys = ?ys" by simp
        then show ?thesis by simp
      qed
      from imgReplacement_cases [of tag attrs k v] show ?thesis
      proof (elim disjE exE conjE)
        assume r: "imgReplacement (tag @ attrs @ (k @ [DQ]) @ v @ [DQ]) attrs v
            = tag @ attrs @ (k @ [DQ]) @ ([] @ v) @ [DQ]"
          and s: "imgReplacement (tag @ attrs @ (k @ [DQ]) @ ([] @ v) @ [DQ]) attrs ([] @ v)
            = tag @ attrs @ (k @ [DQ]) @ ([] @ v) @ [DQ]"
        from again [OF tag k _ s] out r Cons show ?thesis by simp
      next
        fix ins
        assume i: "ins \<in> {''../en/'', ''../en''}"
          and r: "imgReplacement (tag @ attrs @ (k @ [DQ]) @ v @ [DQ]) attrs v
            = ''<img'' @ attrs @ (''src='' @ [DQ]) @ (ins @ v) @ [DQ]"
          and s: "imgReplacement (''<img'' @ attrs @ (''src='' @ [DQ]) @ (ins @ v) @ [DQ]) attrs (ins @ v)
            = ''<img'' @ attrs @ (''src='' @ [DQ]) @ (ins @ v) @ [DQ]"
        from i have "ins \<in> {[], ''../en/'', ''../en''}" by auto
        from again [OF keywords_lower_case this s] out r Cons show ?thesis by simp
      qed
    qed
  qed
qed

section \<open>The references of a text\<close>

lemma scanImg_Some:
  assumes "matchImg xs = Some (tag, attrs, kw, v)" and "xs = tag @ attrs @ kw @ v @ DQ # rest"
  shows "scanImg xs = Reference tag attrs kw v # scanImg rest"
proof -
  from matchImg_decompose [OF assms(1)] obtain t' where tag: "tag = CHR ''<'' # t'" by blast
  let ?cs = "t' @ attrs @ kw @ v @ DQ # rest"
  from assms(2) tag have xs: "xs = CHR ''<'' # ?cs" by simp
  have "drop (length tag + length attrs + length kw + length v) ?cs = rest"
    by (simp add: tag)
  with assms(1) show ?thesis
    unfolding xs by simp
qed

text \<open>The segments of a text are the text, and their outputs are the rewritten text.\<close>

lemma scanImg_text_output:
  "concat (map segmentText (scanImg xs)) = xs
   \<and> concat (map segmentOutput (scanImg xs)) = adjustHtmlImagePaths xs"
proof (induction "length xs" arbitrary: xs rule: less_induct)
  case less
  show ?case
  proof (cases xs)
    case Nil
    then show ?thesis by simp
  next
    case (Cons c cs)
    show ?thesis
    proof (cases "matchImg (c # cs)")
      case None
      with Cons less.hyps [of cs] show ?thesis by simp
    next
      case (Some m)
      obtain tag attrs kw v where m: "m = (tag, attrs, kw, v)" by (cases m)
      from Some m have match: "matchImg (c # cs) = Some (tag, attrs, kw, v)" by simp
      from matchImg_decompose [OF match] obtain rest where
        parts: "c # cs = tag @ attrs @ kw @ v @ DQ # rest"
        by blast
      from parts Cons have "length rest < length xs" by simp
      then have ih: "concat (map segmentText (scanImg rest)) = rest"
        "concat (map segmentOutput (scanImg rest)) = adjustHtmlImagePaths rest"
        using less.hyps [of rest] by simp_all
      from scanImg_Some [OF match parts] adjustHtmlImagePaths_Some [OF match parts] ih parts Cons
      show ?thesis by simp
    qed
  qed
qed

lemma scanImg_text: "concat (map segmentText (scanImg xs)) = xs"
  using scanImg_text_output [of xs] by simp

lemma scanImg_output: "concat (map segmentOutput (scanImg xs)) = adjustHtmlImagePaths xs"
  using scanImg_text_output [of xs] by simp

text \<open>The scan of the text from a segment on is the rest of the scan.\<close>

lemma scanImg_suffix:
  assumes "scanImg xs = before @ after"
  shows "scanImg (concat (map segmentText after)) = after"
  using assms
proof (induction before arbitrary: xs)
  case Nil
  with scanImg_text [of xs] show ?case by simp
next
  case (Cons b bs)
  from Cons.prems obtain c cs where xs: "xs = c # cs" by (cases xs) auto
  show ?case
  proof (cases "matchImg (c # cs)")
    case None
    with Cons.prems xs have "scanImg cs = bs @ after" by simp
    then show ?thesis by (rule Cons.IH)
  next
    case (Some m)
    obtain tag attrs kw v where m: "m = (tag, attrs, kw, v)" by (cases m)
    from Some m have match: "matchImg (c # cs) = Some (tag, attrs, kw, v)" by simp
    from matchImg_decompose [OF match] obtain rest where
      parts: "c # cs = tag @ attrs @ kw @ v @ DQ # rest"
      by blast
    from scanImg_Some [OF match parts] Cons.prems xs have "scanImg rest = bs @ after" by simp
    then show ?thesis by (rule Cons.IH)
  qed
qed

text \<open>A reference of the scan is a match of the expression where it stands.\<close>

lemma scanImg_Reference:
  assumes "scanImg xs = Reference tag attrs kw v # after"
  shows "matchImg xs = Some (tag, attrs, kw, v)"
proof -
  from assms obtain c cs where xs: "xs = c # cs" by (cases xs) auto
  show ?thesis
  proof (cases "matchImg (c # cs)")
    case None
    with assms xs show ?thesis by simp
  next
    case (Some m)
    obtain tag' attrs' kw' v' where m: "m = (tag', attrs', kw', v')" by (cases m)
    from Some m have match: "matchImg (c # cs) = Some (tag', attrs', kw', v')" by simp
    from matchImg_decompose [OF match] obtain rest where
      parts: "c # cs = tag' @ attrs' @ kw' @ v' @ DQ # rest"
      by blast
    from scanImg_Some [OF match parts] assms xs match show ?thesis by simp
  qed
qed

lemma imgReplacement_absolute:
  assumes "startsWith src ''http://'' \<or> startsWith src ''https://'' \<or> startsWith src ''data:''"
  shows "imgReplacement match attributes src = match"
  using assms by (auto simp: imgReplacement_def)

text \<open>
  Claim C9 (idempotent rewrite). For every markup text \<open>x\<close>, applying
  \<open>adjustHtmlImagePaths\<close> twice equals applying it once. The text is the concatenation of
  the segments of the scan, and the rewritten text is the concatenation of their outputs.
  Every reference that the scan finds, wherever it stands in \<open>x\<close>, whose path starts with
  \<open>http://\<close>, \<open>https://\<close> or \<open>data:\<close>, is a match of the expression where it stands and is
  emitted as it is, between the outputs of the segments before it and after it. A text
  all of whose references have such a path is left unchanged as a whole.
\<close>

theorem adjustHtmlImagePaths_idempotent:
  "adjustHtmlImagePaths (adjustHtmlImagePaths x) = adjustHtmlImagePaths x
   \<and> concat (map segmentText (scanImg x)) = x
   \<and> concat (map segmentOutput (scanImg x)) = adjustHtmlImagePaths x
   \<and> (\<forall>before tag attributes keyword src after.
         scanImg x = before @ Reference tag attributes keyword src # after
         \<and> (startsWith src ''http://'' \<or> startsWith src ''https://'' \<or> startsWith src ''data:'')
         \<longrightarrow> x = concat (map segmentText before)
                   @ (tag @ attributes @ keyword @ src @ [DQ])
                   @ concat (map segmentText after)
             \<and> matchImg ((tag @ attributes @ keyword @ src @ [DQ]) @ concat (map segmentText after))
                 = Some (tag, attributes, keyword, src)
             \<and> adjustHtmlImagePaths x
                 = concat (map segmentOutput before)
                   @ (tag @ attributes @ keyword @ src @ [DQ])
                   @ concat (map segmentOutput after))
   \<and> ((\<forall>tag attributes keyword src.
          Reference tag attributes keyword src \<in> set (scanImg x)
          \<longrightarrow> startsWith src ''http://'' \<or> startsWith src ''https://'' \<or> startsWith src ''data:'')
       \<longrightarrow> adjustHtmlImagePaths x = x)"
proof (intro conjI allI impI)
  show "adjustHtmlImagePaths (adjustHtmlImagePaths x) = adjustHtmlImagePaths x"
    by (rule rewrite_twice)
  show "concat (map segmentText (scanImg x)) = x"
    by (rule scanImg_text)
  show "concat (map segmentOutput (scanImg x)) = adjustHtmlImagePaths x"
    by (rule scanImg_output)
next
  fix before tag attributes keyword src after
  assume a: "scanImg x = before @ Reference tag attributes keyword src # after
    \<and> (startsWith src ''http://'' \<or> startsWith src ''https://'' \<or> startsWith src ''data:'')"
  then have scan: "scanImg x = before @ Reference tag attributes keyword src # after"
    and absolute: "startsWith src ''http://'' \<or> startsWith src ''https://'' \<or> startsWith src ''data:''"
    by simp_all
  from scanImg_text [of x] scan
  show "x = concat (map segmentText before)
              @ (tag @ attributes @ keyword @ src @ [DQ])
              @ concat (map segmentText after)"
    by simp
  from scanImg_output [of x] scan imgReplacement_absolute [OF absolute]
  show "adjustHtmlImagePaths x
      = concat (map segmentOutput before)
        @ (tag @ attributes @ keyword @ src @ [DQ])
        @ concat (map segmentOutput after)"
    by simp
  from scanImg_suffix [OF scan]
  have "scanImg ((tag @ attributes @ keyword @ src @ [DQ]) @ concat (map segmentText after))
      = Reference tag attributes keyword src # after"
    by simp
  then show "matchImg ((tag @ attributes @ keyword @ src @ [DQ]) @ concat (map segmentText after))
      = Some (tag, attributes, keyword, src)"
    by (rule scanImg_Reference)
next
  assume all: "\<forall>tag attributes keyword src.
      Reference tag attributes keyword src \<in> set (scanImg x)
      \<longrightarrow> startsWith src ''http://'' \<or> startsWith src ''https://'' \<or> startsWith src ''data:''"
  have "segmentOutput seg = segmentText seg" if "seg \<in> set (scanImg x)" for seg
  proof (cases seg)
    case (Plain c)
    then show ?thesis by simp
  next
    case (Reference tag attributes keyword src)
    with that all
    have "startsWith src ''http://'' \<or> startsWith src ''https://'' \<or> startsWith src ''data:''"
      by blast
    from imgReplacement_absolute [OF this] Reference show ?thesis by simp
  qed
  then have "map segmentOutput (scanImg x) = map segmentText (scanImg x)" by simp
  with scanImg_text [of x] scanImg_output [of x] show "adjustHtmlImagePaths x = x" by simp
qed

lemma sample_scan:
  "scanImg (''<p><img src='' @ [DQ] @ ''http://a/b.png'' @ [DQ] @ ''></p>'')
     = [Plain CHR ''<'', Plain CHR ''p'', Plain CHR ''>'',
        Reference ''<img'' '' '' (''src='' @ [DQ]) ''http://a/b.png'',
        Plain CHR ''>'', Plain CHR ''<'', Plain CHR ''/'', Plain CHR ''p'', Plain CHR ''>'']"
  by code_simp

theorem adjustHtmlImagePaths_idempotent_witness:
  "adjustHtmlImagePaths
       (adjustHtmlImagePaths (''<p><img src='' @ [DQ] @ ''http://a/b.png'' @ [DQ] @ ''></p>''))
     = adjustHtmlImagePaths (''<p><img src='' @ [DQ] @ ''http://a/b.png'' @ [DQ] @ ''></p>'')
   \<and> scanImg (''<p><img src='' @ [DQ] @ ''http://a/b.png'' @ [DQ] @ ''></p>'')
     = [Plain CHR ''<'', Plain CHR ''p'', Plain CHR ''>'',
        Reference ''<img'' '' '' (''src='' @ [DQ]) ''http://a/b.png'',
        Plain CHR ''>'', Plain CHR ''<'', Plain CHR ''/'', Plain CHR ''p'', Plain CHR ''>'']
   \<and> adjustHtmlImagePaths (''<p><img src='' @ [DQ] @ ''http://a/b.png'' @ [DQ] @ ''></p>'')
     = ''<p><img src='' @ [DQ] @ ''http://a/b.png'' @ [DQ] @ ''></p>''"
proof -
  let ?x = "''<p><img src='' @ [DQ] @ ''http://a/b.png'' @ [DQ] @ ''></p>''"
  from adjustHtmlImagePaths_idempotent [of ?x]
  have twice: "adjustHtmlImagePaths (adjustHtmlImagePaths ?x) = adjustHtmlImagePaths ?x"
    and kept: "(\<forall>tag attributes keyword src.
          Reference tag attributes keyword src \<in> set (scanImg ?x)
          \<longrightarrow> startsWith src ''http://'' \<or> startsWith src ''https://'' \<or> startsWith src ''data:'')
       \<longrightarrow> adjustHtmlImagePaths ?x = ?x"
    by blast+
  have "startsWith ''http://a/b.png'' ''http://''"
    by (simp add: startsWith_def)
  then have "\<forall>tag attributes keyword src.
          Reference tag attributes keyword src \<in> set (scanImg ?x)
          \<longrightarrow> startsWith src ''http://'' \<or> startsWith src ''https://'' \<or> startsWith src ''data:''"
    unfolding sample_scan by simp
  with kept have "adjustHtmlImagePaths ?x = ?x" by blast
  with twice sample_scan show ?thesis by blast
qed

end
